theory Spec2Isabelle
  imports Complex_Main "HOL-Library.Log_Nat"
begin

section \<open>The histogram engine of histogram\_nd.c\<close>

text \<open>
  Conventions of the embedding.
  \<^item> The global variables of the program are the fields of the record \<open>config\<close>
    (the global \<open>size\<close> is the field \<open>bsize\<close>) and of the record \<open>seen\<close>.  Where a C
    function has a parameter that hides a global (\<open>dims\<close> and \<open>size\<close> of \<open>set_pos\<close>,
    \<open>get_pos\<close> and \<open>adv_pos\<close>), the parameter is called \<open>n\<close> and \<open>sz\<close>.
  \<^item> A C array is a list.  A \<open>for (dim = 0; dim < dims; dim++)\<close> loop without
    \<open>break\<close> is a \<open>fold\<close> over \<open>[0..<dims]\<close>; loops with \<open>break\<close> are recursive
    functions; the two \<open>while (1)\<close> loops and the \<open>do .. while\<close> loop of \<open>output\<close> are
    partial functions whose value \<open>None\<close> means that the loop does not return.
  \<^item> The 32-bit \<open>int temp\<close> in which \<open>main\<close> multiplies the bin counts wraps around
    (\<open>int32\<close>).  The other C \<open>int\<close> and \<open>long\<close> values are unbounded integers: the
    cells, the counters and the \<open>long\<close> indices stay inside their types for every buffer
    that exists and every input of fewer than \<open>2^31\<close> lines.
  \<^item> An access outside the histogram buffer is undefined behaviour in C and an explicit
    outcome of the model (\<open>None\<close> of the accessors, \<open>Undefined\<close> of their callers).
  \<^item> What the program writes to \<open>stderr\<close> (and the observed value ranges \<open>min_ob\<close>,
    \<open>max_ob\<close> and the line number, which are only written there) is left out.
\<close>

subsection \<open>Double arithmetic\<close>

text \<open>
  A finite \<open>double\<close> is the rational number it denotes.  An arithmetic operation of the
  program is the exact operation followed by a rounding function \<open>fl\<close>, which every
  definition below takes as its first argument.  Two roundings are used: the identity
  (exact arithmetic) and \<open>b64\<close>, the rounding of IEEE 754 binary64 to the nearest
  number, ties to even: a 53-bit significand from \<open>2^-1022\<close> on, and multiples of
  \<open>2^-1074\<close> below (subnormal numbers).  Results of magnitude \<open>2^1024\<close> and more, which
  binary64 rounds to an infinity, the infinities and NaN are outside the model.
  Comparisons of doubles and conversions of (small) integers to \<open>double\<close> are exact.
\<close>

definition ilog2 :: "rat \<Rightarrow> int" where
  \<comment> \<open>for \<open>0 < x\<close>: the \<open>e\<close> with \<open>2^e \<le> x < 2^(e+1)\<close>\<close>
  "ilog2 x = (if 1 \<le> x then bitlen \<lfloor>x\<rfloor> - 1 else - bitlen (\<lceil>1 / x\<rceil> - 1))"

definition rhe :: "rat \<Rightarrow> int" where
  \<comment> \<open>round to the nearest integer, ties to even\<close>
  "rhe q = (let f = \<lfloor>q\<rfloor>; r = q - of_int f
            in if r < 1 / 2 then f else if 1 / 2 < r then f + 1
               else if even f then f else f + 1)"

definition b64 :: "rat \<Rightarrow> rat" where
  "b64 x = (if x = 0 then 0
            else let u = 2 powi (max (ilog2 \<bar>x\<bar>) (- 1022) - 52)
                 in sgn x * of_int (rhe (\<bar>x\<bar> / u)) * u)"

definition trunc :: "rat \<Rightarrow> int" where
  \<comment> \<open>conversion of a double to an integer type: towards zero\<close>
  "trunc x = (if 0 \<le> x then \<lfloor>x\<rfloor> else \<lceil>x\<rceil>)"

subsection \<open>Global state\<close>

definition MAX_DIM :: nat where
  "MAX_DIM = 100"

definition INT_MAX :: int where
  "INT_MAX = 2147483647"

record config =
  dims :: int
  low :: "rat list"
  hi :: "rat list"
  bsize :: "rat list"
  bins :: "int list"
  relative :: bool
  omit_outer_zero :: bool
  verbose :: bool
  raw8 :: bool
  raw16 :: bool

text \<open>The occupied range per dimension.\<close>

record seen =
  min_bin_seen :: "int list"
  max_bin_seen :: "int list"

text \<open>The initial values of the globals (arrays of \<open>MAX_DIM\<close> zeros).\<close>

definition globals0 :: config where
  "globals0 = \<lparr>dims = 1, low = replicate MAX_DIM 0, hi = replicate MAX_DIM 0,
     bsize = replicate MAX_DIM 0, bins = replicate MAX_DIM 0, relative = False,
     omit_outer_zero = False, verbose = True, raw8 = False, raw16 = False\<rparr>"

definition seen0 :: seen where
  "seen0 = \<lparr>min_bin_seen = replicate MAX_DIM 0, max_bin_seen = replicate MAX_DIM 0\<rparr>"

text \<open>How a run ends: a function returns, the process exits, or behaviour is undefined.\<close>

datatype 'a result = Return 'a | Exit int | Undefined

fun prepend :: "'a list \<Rightarrow> 'a list result \<Rightarrow> 'a list result" where
  "prepend xs (Return ys) = Return (xs @ ys)"
| "prepend xs r = r"

subsection \<open>\<open>parseOptions\<close>\<close>

text \<open>
  The command line as \<open>getopt_long\<close> delivers it: the options in order, with the values
  \<open>atof\<close> and \<open>atoi\<close> read from their arguments; \<open>Invalid\<close> is an option that
  \<open>getopt_long\<close> does not know.  \<open>extra\<close> says that \<open>argv[optind]\<close> is not \<open>NULL\<close>
  after the options.  The arrays have \<open>MAX_DIM\<close> entries; a write behind them is \<open>None\<close>.
\<close>

datatype opt = Raw8 | Raw16 | OptL rat | OptH rat | OptW int | OptD int
  | OptR | OptO | OptQ | Invalid

fun opt_loop :: "opt list \<Rightarrow> nat \<Rightarrow> config \<Rightarrow> (bool \<times> config) option" where
  "opt_loop [] d c = Some (False, c)"
| "opt_loop (Raw8 # os) d c = opt_loop os d (c\<lparr>raw8 := True\<rparr>)"
| "opt_loop (Raw16 # os) d c = opt_loop os d (c\<lparr>raw16 := True\<rparr>)"
| "opt_loop (OptL x # os) d c =
     (if d < MAX_DIM then opt_loop os d (c\<lparr>low := (low c)[d := x]\<rparr>) else None)"
| "opt_loop (OptH x # os) d c =
     (if d < MAX_DIM then opt_loop os d (c\<lparr>hi := (hi c)[d := x]\<rparr>) else None)"
| "opt_loop (OptW k # os) d c =
     (if d < MAX_DIM then opt_loop os (Suc d) (c\<lparr>bins := (bins c)[d := k]\<rparr>) else None)"
| "opt_loop (OptD k # os) d c = opt_loop os d (c\<lparr>dims := k\<rparr>)"
| "opt_loop (OptR # os) d c = opt_loop os d (c\<lparr>relative := True\<rparr>)"
| "opt_loop (OptO # os) d c = opt_loop os d (c\<lparr>omit_outer_zero := True\<rparr>)"
| "opt_loop (OptQ # os) d c = opt_loop os d (c\<lparr>verbose := False\<rparr>)"
| "opt_loop (Invalid # os) d c = Some (True, c)"

definition range_error :: "config \<Rightarrow> bool" where
  "range_error c =
     list_ex (\<lambda>dim. low c ! dim \<ge> hi c ! dim \<or> bins c ! dim < 1) [0..<nat (dims c)]"

definition parseOptions :: "opt list \<Rightarrow> bool \<Rightarrow> config \<Rightarrow> (int \<times> config) option" where
  "parseOptions opts extra c0 =
     (case opt_loop opts 0 c0 of
        None \<Rightarrow> None
      | Some (True, c) \<Rightarrow> Some (1, c)
      | Some (False, c) \<Rightarrow>
          Some (if extra then 1
                else if dims c < 1 \<or> dims c \<ge> int MAX_DIM then 1
                else if (raw8 c \<or> raw16 c) \<and> (dims c \<noteq> 2 \<or> \<not> relative c) then 1
                else if raw8 c \<and> raw16 c then 1
                else if range_error c then 1
                else 0, c))"

subsection \<open>Flattened array store: \<open>set_pos\<close>, \<open>get_pos\<close>\<close>

text \<open>
  The address loop, textually the same in \<open>get_pos\<close> and \<open>set_pos\<close>:
  \<^verbatim>\<open>offset = 1; ind = 0;
  for (dim = 0; dim < dims; dim++) { ind += pos[dim] * offset; offset *= size[dim]; }\<close>
\<close>

definition index_loop :: "nat \<Rightarrow> int list \<Rightarrow> int list \<Rightarrow> int \<times> int" where
  "index_loop n sz pos =
     fold (\<lambda>dim (ind, offset). (ind + pos ! dim * offset, offset * sz ! dim))
       [0..<n] (0, 1)"

definition update_seen :: "nat \<Rightarrow> int list \<Rightarrow> seen \<Rightarrow> seen" where
  "update_seen n pos s =
     fold (\<lambda>dim s.
        let s1 = (if pos ! dim < min_bin_seen s ! dim
                  then s\<lparr>min_bin_seen := (min_bin_seen s)[dim := pos ! dim]\<rparr> else s)
        in (if pos ! dim > max_bin_seen s1 ! dim
            then s1\<lparr>max_bin_seen := (max_bin_seen s1)[dim := pos ! dim]\<rparr> else s1))
       [0..<n] s"

definition set_pos ::
  "int list \<Rightarrow> int \<Rightarrow> nat \<Rightarrow> int list \<Rightarrow> int list \<Rightarrow> seen \<Rightarrow> (int list \<times> seen) option" where
  "set_pos field v n sz pos s =
     (let ind = fst (index_loop n sz pos)
      in if 0 \<le> ind \<and> ind < int (length field)
         then Some (field[nat ind := v], update_seen n pos s)
         else None)"

definition get_pos :: "int list \<Rightarrow> nat \<Rightarrow> int list \<Rightarrow> int list \<Rightarrow> int option" where
  "get_pos field n sz pos =
     (let ind = fst (index_loop n sz pos)
      in if 0 \<le> ind \<and> ind < int (length field) then Some (field ! nat ind) else None)"

text \<open>The stride formula in the words of the specification.\<close>

fun stride :: "int list \<Rightarrow> nat \<Rightarrow> int" where
  "stride bin_count 0 = 1"
| "stride bin_count (Suc d) = stride bin_count d * bin_count ! d"

definition spec_index :: "nat \<Rightarrow> int list \<Rightarrow> int list \<Rightarrow> int" where
  "spec_index D bin_count i = (\<Sum>d<D. i ! d * stride bin_count d)"

subsection \<open>Position iterator: \<open>adv_pos\<close>\<close>

text \<open>\<open>adv_loop\<close> is the \<open>for\<close> loop of \<open>adv_pos\<close> and returns the final \<open>dim\<close> with the
  position; \<open>bs\<close> is the global \<open>bins\<close>.\<close>

function adv_loop :: "int list \<Rightarrow> nat \<Rightarrow> nat \<Rightarrow> int list \<Rightarrow> nat \<times> int list" where
  "adv_loop bs n d pos =
     (if d < n
      then (let pos1 = pos[d := pos ! d + 1]
            in if pos1 ! d \<ge> bs ! d
               then adv_loop bs n (Suc d) (pos1[d := 0])
               else (d, pos1))
      else (d, pos))"
  by pat_completeness auto
termination
  by (relation "measure (\<lambda>(bs, n, d, pos). n - d)") auto

declare adv_loop.simps [simp del]

definition adv_pos :: "int list \<Rightarrow> nat \<Rightarrow> int list \<Rightarrow> bool \<times> int list" where
  "adv_pos bs n pos =
     (case adv_loop bs n 0 pos of (d, pos') \<Rightarrow> (d \<ge> n, pos'))"

text \<open>The odometer in the words of the specification: increment dimension 0; on reaching
  the bound reset to 0 and carry into the next dimension; exhausted when the carry leaves
  the last dimension.\<close>

fun odometer :: "int list \<Rightarrow> int list \<Rightarrow> bool \<times> int list" where
  "odometer (b # bs) (p # ps) =
     (if p + 1 \<ge> b then (case odometer bs ps of (ex, ps') \<Rightarrow> (ex, 0 # ps'))
      else (False, (p + 1) # ps))"
| "odometer _ _ = (True, [])"

subsection \<open>\<open>import\<close>\<close>

text \<open>
  The input as the line scanner delivers it: a line is a comment (its first character is
  \<open>#\<close>) or carries the numbers that the successive \<open>strtod\<close> calls read from it.  A line
  with fewer than \<open>dims\<close> numbers is a parse error and ends the import.
\<close>

datatype line = Comment | Data "rat list"

record istate =
  field :: "int list"
  occupied :: seen
  count :: int
  oor :: int

definition in_range :: "config \<Rightarrow> rat list \<Rightarrow> bool" where
  "in_range c vals =
     fold (\<lambda>dim in_range. in_range \<and> vals ! dim \<ge> low c ! dim \<and> vals ! dim < hi c ! dim)
       [0..<nat (dims c)] True"

definition bin_index :: "(rat \<Rightarrow> rat) \<Rightarrow> config \<Rightarrow> rat list \<Rightarrow> nat \<Rightarrow> int" where
  "bin_index fl c vals d = \<lfloor>fl (fl (vals ! d - low c ! d) / bsize c ! d)\<rfloor>"

definition bin_pos :: "(rat \<Rightarrow> rat) \<Rightarrow> config \<Rightarrow> rat list \<Rightarrow> int list" where
  "bin_pos fl c vals = map (bin_index fl c vals) [0..<nat (dims c)]"

fun import_loop :: "(rat \<Rightarrow> rat) \<Rightarrow> config \<Rightarrow> line list \<Rightarrow> istate \<Rightarrow> istate option" where
  "import_loop fl c [] st = Some st"
| "import_loop fl c (Comment # ls) st = import_loop fl c ls st"
| "import_loop fl c (Data vals # ls) st =
     (if length vals < nat (dims c) then Some st
      else if in_range c vals
      then (let pos = bin_pos fl c vals
            in case get_pos (field st) (nat (dims c)) (bins c) pos of
                 None \<Rightarrow> None
               | Some val \<Rightarrow>
                   (case set_pos (field st) (val + 1) (nat (dims c)) (bins c) pos (occupied st) of
                      None \<Rightarrow> None
                    | Some (field', s') \<Rightarrow>
                        import_loop fl c ls
                          (st\<lparr>field := field', occupied := s', count := count st + 1\<rparr>)))
      else import_loop fl c ls (st\<lparr>oor := oor st + 1, count := count st + 1\<rparr>))"

definition import :: "(rat \<Rightarrow> rat) \<Rightarrow> config \<Rightarrow> line list \<Rightarrow> istate \<Rightarrow> istate result" where
  "import fl c ls st0 =
     (case import_loop fl c ls (st0\<lparr>oor := 0\<rparr>) of
        None \<Rightarrow> Undefined
      | Some st \<Rightarrow> if count st - oor st \<le> 0 then Exit 1 else Return st)"

subsection \<open>\<open>output\<close> (here \<open>output_stdout\<close>)\<close>

text \<open>What is written to \<open>stdout\<close>: a byte, a text line with the bin midpoints and the
  value (the numbers that \<open>printf\<close> formats), or an empty line.\<close>

datatype cell_value = Count int | Freq rat

datatype out_item = Byte int | Line "rat list" cell_value | Blank

text \<open>The first pass of the raw modes: \<open>do max = MAX(max, get_pos(..)); while (!adv_pos(..))\<close>.\<close>

partial_function (option) max_loop ::
  "config \<Rightarrow> int list \<Rightarrow> int \<Rightarrow> int list \<Rightarrow> int result option" where
  "max_loop c fld mx pos =
     (case get_pos fld (nat (dims c)) (bins c) pos of
        None \<Rightarrow> Some Undefined
      | Some v \<Rightarrow>
          (case adv_pos (bins c) (nat (dims c)) pos of
             (ex, pos') \<Rightarrow> if ex then Some (Return (max mx v)) else max_loop c fld (max mx v) pos'))"

declare max_loop.simps [code]

text \<open>The padding of the occupied range (``fixup min / max bins'').\<close>

definition fixup :: "config \<Rightarrow> seen \<Rightarrow> seen" where
  "fixup c s =
     fold (\<lambda>dim s.
        let s1 = (if min_bin_seen s ! dim > 0
                  then s\<lparr>min_bin_seen := (min_bin_seen s)[dim := min_bin_seen s ! dim - 1]\<rparr>
                  else s)
        in (if max_bin_seen s1 ! dim < bins c ! dim - 1
            then s1\<lparr>max_bin_seen := (max_bin_seen s1)[dim := max_bin_seen s1 ! dim + 1]\<rparr>
            else s1))
       [0..<nat (dims c)] s"

text \<open>
  One sample of the raw modes.  The quotient by \<open>max = 0\<close> is not a number, and the
  conversion of a double to \<open>uint8_t\<close> or \<open>uint16_t\<close> is defined only when the truncated
  value fits; \<open>htons\<close> and \<open>write\<close> put the high byte first.
\<close>

definition raw_sample :: "(rat \<Rightarrow> rat) \<Rightarrow> config \<Rightarrow> int \<Rightarrow> int \<Rightarrow> out_item list option" where
  "raw_sample fl c v mx =
     (if mx = 0 then None
      else if raw8 c
      then (let out = trunc (fl (fl (of_int v / of_int mx) * 255))
            in if 0 \<le> out \<and> out \<le> 255 then Some [Byte out] else None)
      else if raw16 c
      then (let out = trunc (fl (fl (of_int v / of_int mx) * 65535))
            in if 0 \<le> out \<and> out \<le> 65535 then Some [Byte (out div 256), Byte (out mod 256)]
               else None)
      else Some [])"

partial_function (option) raw_loop ::
  "(rat \<Rightarrow> rat) \<Rightarrow> config \<Rightarrow> int list \<Rightarrow> int \<Rightarrow> int list \<Rightarrow> out_item list result option" where
  "raw_loop fl c fld mx pos =
     (case get_pos fld (nat (dims c)) (bins c) pos of
        None \<Rightarrow> Some Undefined
      | Some v \<Rightarrow>
          (case raw_sample fl c v mx of
             None \<Rightarrow> Some Undefined
           | Some bytes \<Rightarrow>
               (case adv_pos (bins c) (nat (dims c)) pos of
                  (ex, pos') \<Rightarrow>
                    if ex then Some (Return bytes)
                    else Option.bind (raw_loop fl c fld mx pos') (\<lambda>r. Some (prepend bytes r)))))"

declare raw_loop.simps [code]

text \<open>One text line: the midpoints, then the count or the relative frequency.\<close>

definition midpoint :: "(rat \<Rightarrow> rat) \<Rightarrow> config \<Rightarrow> int list \<Rightarrow> nat \<Rightarrow> rat" where
  "midpoint fl c pos d =
     fl (low c ! d
         + fl (fl (fl (of_int (pos ! d) + 1 / 2) * fl (hi c ! d - low c ! d))
               / of_int (bins c ! d)))"

definition bin_sizes :: "(rat \<Rightarrow> rat) \<Rightarrow> config \<Rightarrow> rat" where
  "bin_sizes fl c = fold (\<lambda>dim b. fl (b * bsize c ! dim)) [0..<nat (dims c)] 1"

definition text_line ::
  "(rat \<Rightarrow> rat) \<Rightarrow> config \<Rightarrow> int list \<Rightarrow> int \<Rightarrow> int list \<Rightarrow> out_item option" where
  "text_line fl c fld cnt pos =
     (case get_pos fld (nat (dims c)) (bins c) pos of
        None \<Rightarrow> None
      | Some v \<Rightarrow>
          Some (Line (map (midpoint fl c pos) [0..<nat (dims c)])
                  (if relative c
                   then Freq (fl (of_int v / fl (bin_sizes fl c * of_int cnt)))
                   else Count v)))"

text \<open>
  The position update of the text mode,
  \<^verbatim>\<open>for (dim = dims - 1; dim >= 0; dim--) { pos[dim]++; if (overflow) { reset;
  if (dim == dims - 1) printf("\n"); } else break; }\<close>
  as a recursion on \<open>dim + 1\<close>.  It returns the final \<open>dim + 1\<close> (0 when \<open>dim < 0\<close>), the
  position and the spacer lines printed.
\<close>

fun text_adv :: "config \<Rightarrow> seen \<Rightarrow> nat \<Rightarrow> int list \<Rightarrow> nat \<times> int list \<times> out_item list" where
  "text_adv c s 0 pos = (0, pos, [])"
| "text_adv c s (Suc d) pos =
     (let pos1 = pos[d := pos ! d + 1]
      in if pos1 ! d \<ge> bins c ! d \<or> (omit_outer_zero c \<and> pos1 ! d > max_bin_seen s ! d)
         then (case text_adv c s d (pos1[d := (if omit_outer_zero c then min_bin_seen s ! d else 0)]) of
                 (k, pos', spacers) \<Rightarrow>
                   (k, pos', (if int d = dims c - 1 then [Blank] else []) @ spacers))
         else (Suc d, pos1, []))"

partial_function (option) text_loop ::
  "(rat \<Rightarrow> rat) \<Rightarrow> config \<Rightarrow> seen \<Rightarrow> int list \<Rightarrow> int \<Rightarrow> int list \<Rightarrow> out_item list result option" where
  "text_loop fl c s fld cnt pos =
     (case text_line fl c fld cnt pos of
        None \<Rightarrow> Some Undefined
      | Some row \<Rightarrow>
          (case text_adv c s (nat (dims c)) pos of
             (k, pos', spacers) \<Rightarrow>
               if k = 0 then Some (Return (row # spacers))
               else Option.bind (text_loop fl c s fld cnt pos')
                      (\<lambda>r. Some (prepend (row # spacers) r))))"

declare text_loop.simps [code]

definition start_pos :: "config \<Rightarrow> seen \<Rightarrow> int list" where
  "start_pos c s =
     map (\<lambda>dim. if omit_outer_zero c then min_bin_seen s ! dim else 0) [0..<nat (dims c)]"

definition output_stdout ::
  "(rat \<Rightarrow> rat) \<Rightarrow> config \<Rightarrow> seen \<Rightarrow> int list \<Rightarrow> int \<Rightarrow> out_item list result option" where
  "output_stdout fl c s fld cnt =
     (case (if raw8 c \<or> raw16 c then max_loop c fld 0 (replicate (nat (dims c)) 0)
            else Some (Return 0)) of
        None \<Rightarrow> None
      | Some (Return mx) \<Rightarrow>
          (let s' = fixup c s; pos = start_pos c s'
           in if raw8 c \<or> raw16 c then raw_loop fl c fld mx pos
              else text_loop fl c s' fld cnt pos)
      | Some (Exit k) \<Rightarrow> Some (Exit k)
      | Some Undefined \<Rightarrow> Some Undefined)"

subsection \<open>\<open>main\<close>\<close>

definition compute_sizes :: "(rat \<Rightarrow> rat) \<Rightarrow> config \<Rightarrow> config" where
  "compute_sizes fl c =
     fold (\<lambda>dim c. c\<lparr>bsize := (bsize c)[dim := fl (fl (hi c ! dim - low c ! dim) / of_int (bins c ! dim))]\<rparr>)
       [0..<nat (dims c)] c"

text \<open>
  The number of cells, \<^verbatim>\<open>temp = 1; for (..) temp *= bins[dim];\<close> in a 32-bit \<open>int\<close>:
  the product wraps around.  \<open>calloc (temp, ..)\<close> with a \<open>temp\<close> that is 0 or negative
  gives no cell that may be accessed.
\<close>

definition int32 :: "int \<Rightarrow> int" where
  "int32 x = (x + 2 ^ 31) mod 2 ^ 32 - 2 ^ 31"

definition array_size :: "config \<Rightarrow> int" where
  "array_size c = fold (\<lambda>dim temp. int32 (temp * bins c ! dim)) [0..<nat (dims c)] 1"

definition init_seen :: "config \<Rightarrow> seen \<Rightarrow> seen" where
  "init_seen c s =
     fold (\<lambda>dim s. s\<lparr>min_bin_seen := (min_bin_seen s)[dim := INT_MAX],
                      max_bin_seen := (max_bin_seen s)[dim := - 1]\<rparr>)
       [0..<nat (dims c)] s"

text \<open>The buffer that \<open>calloc\<close> returns and the initial counters of \<open>main\<close>.\<close>

definition initial_state :: "config \<Rightarrow> istate" where
  "initial_state c =
     \<lparr>field = replicate (nat (array_size c)) 0, occupied = init_seen c seen0,
      count = 0, oor = 0\<rparr>"

text \<open>The whole run: the exit status with what was written to \<open>stdout\<close>.\<close>

definition main ::
  "(rat \<Rightarrow> rat) \<Rightarrow> opt list \<Rightarrow> bool \<Rightarrow> line list \<Rightarrow> out_item list result option" where
  "main fl opts extra input =
     (case parseOptions opts extra globals0 of
        None \<Rightarrow> Some Undefined
      | Some (r, c0) \<Rightarrow>
          if r \<noteq> 0 then Some (Exit 1)
          else (let c = compute_sizes fl c0
                in case import fl c input (initial_state c) of
                     Return st \<Rightarrow> output_stdout fl c (occupied st) (field st) (count st)
                   | Exit k \<Rightarrow> Some (Exit k)
                   | Undefined \<Rightarrow> Some Undefined))"

text \<open>The globals with which \<open>main\<close> calls \<open>import\<close> and \<open>output\<close> for a command line
  that \<open>parseOptions\<close> accepts.\<close>

definition configure :: "(rat \<Rightarrow> rat) \<Rightarrow> opt list \<Rightarrow> config" where
  "configure fl opts =
     (case parseOptions opts False globals0 of
        Some (r, c) \<Rightarrow> compute_sizes fl c
      | None \<Rightarrow> globals0)"

subsection \<open>Notions of the specification\<close>

text \<open>The tuples read (complete data lines before the first parse error) and the accepted
  ones among them (inside the half-open interval in every dimension).\<close>

definition spec_in_range :: "config \<Rightarrow> rat list \<Rightarrow> bool" where
  "spec_in_range c v =
     list_all (\<lambda>d. low c ! d \<le> v ! d \<and> v ! d < hi c ! d) [0..<nat (dims c)]"

fun tuples_read :: "config \<Rightarrow> line list \<Rightarrow> int" where
  "tuples_read c [] = 0"
| "tuples_read c (Comment # ls) = tuples_read c ls"
| "tuples_read c (Data v # ls) =
     (if length v < nat (dims c) then 0 else 1 + tuples_read c ls)"

fun accepted :: "config \<Rightarrow> line list \<Rightarrow> int" where
  "accepted c [] = 0"
| "accepted c (Comment # ls) = accepted c ls"
| "accepted c (Data v # ls) =
     (if length v < nat (dims c) then 0
      else (if spec_in_range c v then 1 else 0) + accepted c ls)"

text \<open>The raw samples as the specification words them: rounded to the nearest integer.\<close>

definition spec_raw8 :: "int \<Rightarrow> int \<Rightarrow> int" where
  "spec_raw8 v mx = round (rat_of_int v / rat_of_int mx * 255)"

definition spec_raw16 :: "int \<Rightarrow> int \<Rightarrow> int" where
  "spec_raw16 v mx = round (rat_of_int v / rat_of_int mx * 65535)"

text \<open>The samples of a sequence of cells, one after the other; a sample that is not
  defined makes the whole output undefined.\<close>

fun raw_samples :: "(rat \<Rightarrow> rat) \<Rightarrow> config \<Rightarrow> int \<Rightarrow> int list \<Rightarrow> out_item list result" where
  "raw_samples fl c mx [] = Return []"
| "raw_samples fl c mx (v # vs) =
     (case raw_sample fl c v mx of None \<Rightarrow> Undefined
      | Some bytes \<Rightarrow> prepend bytes (raw_samples fl c mx vs))"

text \<open>A step of the text mode in which the last dimension overflows.\<close>

definition last_wraps :: "config \<Rightarrow> seen \<Rightarrow> int list \<Rightarrow> bool" where
  "last_wraps c s pos =
     (let d = nat (dims c) - 1
      in bins c ! d \<le> pos ! d + 1 \<or> (omit_outer_zero c \<and> max_bin_seen s ! d < pos ! d + 1))"

subsection \<open>Example configurations\<close>

definition example_1d :: config where
  "example_1d = \<lparr>dims = 1, low = [0], hi = [10], bsize = [5], bins = [2], relative = False,
     omit_outer_zero = False, verbose = True, raw8 = False, raw16 = False\<rparr>"

definition example_raw :: config where
  "example_raw = \<lparr>dims = 2, low = [0, 0], hi = [2, 2], bsize = [1, 1], bins = [2, 2],
     relative = True, omit_outer_zero = False, verbose = True, raw8 = True, raw16 = False\<rparr>"

definition example_trim :: config where
  "example_trim = \<lparr>dims = 1, low = [0], hi = [10], bsize = [1], bins = [10], relative = False,
     omit_outer_zero = True, verbose = True, raw8 = False, raw16 = False\<rparr>"

definition example_2d :: config where
  "example_2d = \<lparr>dims = 2, low = [0, 0], hi = [2, 2], bsize = [1, 1], bins = [2, 2],
     relative = False, omit_outer_zero = False, verbose = True, raw8 = False, raw16 = False\<rparr>"

section \<open>Properties\<close>

subsection \<open>The rounding function\<close>

text \<open>\<open>b64 x\<close> is determined by the binade of \<open>x\<close> and the integer nearest to the
  scaled significand; numbers with a 53-bit significand are left as they are.\<close>

lemma bitlen_eqI:
  assumes "2 ^ k \<le> n" "n < 2 ^ Suc k"
  shows "bitlen n = int k + 1"
proof (rule antisym)
  show "bitlen n \<le> int k + 1"
    using assms(2) by (simp add: bitlen_le_iff_power nat_add_distrib)
  show "int k + 1 \<le> bitlen n"
    using assms(1) by (simp add: bitlen_ge_iff_power nat_add_distrib)
qed

lemma ilog2_eqI:
  assumes "2 powi e \<le> x" "x < 2 powi (e + 1)"
  shows "ilog2 x = e"
proof (cases "1 \<le> x")
  case True
  have "\<not> e + 1 \<le> 0"
  proof
    assume "e + 1 \<le> 0"
    then have "(2::rat) powi (e + 1) \<le> 2 powi 0" by (intro power_int_increasing) simp_all
    then show False using assms(2) True by simp
  qed
  then obtain k where k: "e = int k" by (metis add_le_same_cancel1 int_ops(1) le_add_same_cancel1 nonneg_int_cases not_le zle_add1_eq_le zero_le_one linorder_linear add.commute)
  have a: "(2::int) ^ k \<le> \<lfloor>x\<rfloor>" using assms(1) k by (simp add: le_floor_iff)
  have "x < 2 ^ Suc k" using assms(2) k by (simp add: power_int_add)
  then have b: "\<lfloor>x\<rfloor> < 2 ^ Suc k" by (simp add: floor_less_iff)
  show ?thesis using bitlen_eqI [OF a b] True k by (simp add: ilog2_def)
next
  case False
  have x0: "0 < x" using assms(1) by (meson less_le_trans zero_less_numeral zero_less_power_int)
  have "e < 0"
  proof (rule ccontr)
    assume "\<not> e < 0"
    then have "(2::rat) powi 0 \<le> 2 powi e" by (intro power_int_increasing) simp_all
    then show False using assms(1) False by simp
  qed
  then obtain k where k: "e = - int (Suc k)"
    by (metis add.inverse_inverse neg_0_less_iff_less zero_less_imp_eq_int gr0_implies_Suc of_nat_0_less_iff)
  have e1: "e + 1 = - int k" using k by simp
  have le: "1 / x \<le> 2 ^ Suc k"
  proof -
    have "(2::rat) powi e = 1 / 2 ^ Suc k"
      unfolding k power_int_minus_divide power_int_of_nat ..
    then have "1 / 2 ^ Suc k \<le> x" using assms(1) by simp
    then show ?thesis using x0 by (simp add: field_simps)
  qed
  have gt: "2 ^ k < 1 / x"
  proof -
    have "(2::rat) powi (e + 1) = 1 / 2 ^ k"
      unfolding e1 power_int_minus_divide power_int_of_nat ..
    then have "x < 1 / 2 ^ k" using assms(2) by simp
    then show ?thesis using x0 by (simp add: field_simps)
  qed
  have "\<lceil>1 / x\<rceil> \<le> 2 ^ Suc k" using le by (simp add: ceiling_le_iff)
  then have b: "\<lceil>1 / x\<rceil> - 1 < 2 ^ Suc k" by simp
  have "(2::int) ^ k < \<lceil>1 / x\<rceil>" using gt by (simp add: less_ceiling_iff)
  then have a: "(2::int) ^ k \<le> \<lceil>1 / x\<rceil> - 1" by simp
  show ?thesis using bitlen_eqI [OF a b] False k by (simp add: ilog2_def)
qed

lemma rhe_eqI: "\<bar>q - of_int m\<bar> < 1 / 2 \<Longrightarrow> rhe q = m"
proof -
  assume a: "\<bar>q - of_int m\<bar> < 1 / 2"
  show ?thesis
  proof (cases "of_int m \<le> q")
    case True
    then have "\<lfloor>q\<rfloor> = m" using a by (intro floor_unique) (simp_all add: abs_if)
    then show ?thesis using a True by (simp add: rhe_def)
  next
    case False
    then have f: "\<lfloor>q\<rfloor> = m - 1" using a by (intro floor_unique) (simp_all add: abs_if)
    have "\<not> q - of_int (m - 1) < 1 / 2" "1 / 2 < q - of_int (m - 1)"
      using a False by (simp_all add: abs_if)
    then show ?thesis using f by (simp add: rhe_def Let_def)
  qed
qed

lemma rhe_of_int [simp]: "rhe (of_int m) = m"
  by (rule rhe_eqI) simp

lemma b64_eqI:
  assumes "2 powi e \<le> x" "x < 2 powi (e + 1)" "\<bar>x / 2 powi (e - 52) - of_int m\<bar> < 1 / 2"
    and "- 1022 \<le> e"
  shows "b64 x = of_int m * 2 powi (e - 52)"
proof -
  have x0: "0 < x" using assms(1) by (meson less_le_trans zero_less_numeral zero_less_power_int)
  have "ilog2 \<bar>x\<bar> = e" using ilog2_eqI [OF assms(1,2)] x0 by simp
  then have "max (ilog2 \<bar>x\<bar>) (- 1022) = e" using assms(4) by simp
  then show ?thesis using x0 rhe_eqI [OF assms(3)] by (simp add: b64_def)
qed

lemma b64_exactI:
  assumes "2 powi e \<le> x" "x < 2 powi (e + 1)" "x / 2 powi (e - 52) \<in> \<int>"
    and "- 1022 \<le> e"
  shows "b64 x = x"
proof -
  from assms(3) obtain m where m: "x / 2 powi (e - 52) = of_int m" by (auto elim: Ints_cases)
  then have "b64 x = of_int m * 2 powi (e - 52)"
    using b64_eqI [OF assms(1,2) _ assms(4), of m] by simp
  also have "\<dots> = x" using m by (simp add: field_simps)
  finally show ?thesis .
qed

lemma b64_0 [simp]: "b64 0 = 0"
  by (simp add: b64_def)

lemma b64_minus: "b64 (- x) = - b64 x"
  by (simp add: b64_def sgn_minus Let_def)

subsection \<open>Evaluation at concrete inputs\<close>

lemma replicate_numeral:
  "replicate (numeral k) x = x # replicate (pred_numeral k) x"
  by (simp add: numeral_eq_Suc)

lemmas eval_defs = import_def initial_state_def array_size_def int32_def
  in_range_def bin_pos_def bin_index_def get_pos_def set_pos_def index_loop_def
  MAX_DIM_def INT_MAX_def spec_in_range_def replicate_numeral Let_def

lemmas seen_defs = update_seen_def init_seen_def seen0_def

lemma floor_rat_numeral [simp]:
  "\<lfloor>(numeral a :: rat) / numeral b\<rfloor> = numeral a div numeral b"
  "\<lfloor>(1 :: rat) / numeral b\<rfloor> = 1 div numeral b"
  using floor_divide_of_int_eq [of "numeral a" "numeral b", where ?'a = rat]
    floor_divide_of_int_eq [of 1 "numeral b", where ?'a = rat]
  by simp_all

text \<open>The doubles that occur in the runs evaluated below.\<close>

lemma b64_vals:
  "b64 1 = 1" "b64 2 = 2" "b64 3 = 3" "b64 10 = 10" "b64 65 = 65" "b64 75 = 75"
  "b64 85 = 85" "b64 255 = 255"
  "b64 (1 / 2) = 1 / 2" "b64 (3 / 2) = 3 / 2" "b64 (1 / 4) = 1 / 4" "b64 (255 / 4) = 255 / 4"
  "b64 (13 / 2) = 13 / 2" "b64 (15 / 2) = 15 / 2" "b64 (17 / 2) = 17 / 2" "b64 (5 / 2) = 5 / 2"
  "b64 (9007199254740991 / 9007199254740992) = 9007199254740991 / 9007199254740992"
  "b64 (1 / 3) = 6004799503160661 / 18014398509481984"
  "b64 (18014398509481982 / 6004799503160661) = 3"
proof -
  show "b64 1 = 1" by (rule b64_exactI [where e = 0]) simp_all
  show "b64 2 = 2" by (rule b64_exactI [where e = 1]) simp_all
  show "b64 3 = 3" by (rule b64_exactI [where e = 1]) simp_all
  show "b64 10 = 10" by (rule b64_exactI [where e = 3]) simp_all
  show "b64 65 = 65" by (rule b64_exactI [where e = 6]) simp_all
  show "b64 75 = 75" by (rule b64_exactI [where e = 6]) simp_all
  show "b64 85 = 85" by (rule b64_exactI [where e = 6]) simp_all
  show "b64 255 = 255" by (rule b64_exactI [where e = 7]) simp_all
  show "b64 (1 / 2) = 1 / 2" by (rule b64_exactI [where e = "-1"]) simp_all
  show "b64 (3 / 2) = 3 / 2" by (rule b64_exactI [where e = 0]) simp_all
  show "b64 (1 / 4) = 1 / 4" by (rule b64_exactI [where e = "-2"]) simp_all
  show "b64 (255 / 4) = 255 / 4" by (rule b64_exactI [where e = 5]) simp_all
  show "b64 (13 / 2) = 13 / 2" by (rule b64_exactI [where e = 2]) simp_all
  show "b64 (15 / 2) = 15 / 2" by (rule b64_exactI [where e = 2]) simp_all
  show "b64 (17 / 2) = 17 / 2" by (rule b64_exactI [where e = 3]) simp_all
  show "b64 (5 / 2) = 5 / 2" by (rule b64_exactI [where e = 1]) simp_all
  show "b64 (9007199254740991 / 9007199254740992) = 9007199254740991 / 9007199254740992"
    by (rule b64_exactI [where e = "-1"]) simp_all
  show "b64 (1 / 3) = 6004799503160661 / 18014398509481984"
    using b64_eqI [where e = "-2" and x = "1 / 3" and m = 6004799503160661] by simp
  show "b64 (18014398509481982 / 6004799503160661) = 3"
    using b64_eqI [where e = 1 and x = "18014398509481982 / 6004799503160661"
        and m = "3 * 2 ^ 51"] by simp
qed

subsection \<open>The flattened array store\<close>

lemma index_loop_eq:
  "index_loop n sz pos = (spec_index n sz pos, stride sz n)"
  by (induction n) (simp_all add: index_loop_def spec_index_def)

lemma stride_pos:
  "\<forall>d<n. 0 < sz ! d \<Longrightarrow> 0 < stride sz n"
  by (induction n) simp_all

lemma spec_index_bounds:
  "\<forall>d<n. 0 \<le> pos ! d \<and> pos ! d < sz ! d \<Longrightarrow>
     0 \<le> spec_index n sz pos \<and> spec_index n sz pos < stride sz n"
proof (induction n)
  case 0
  show ?case by (simp add: spec_index_def)
next
  case (Suc n)
  have ih: "0 \<le> spec_index n sz pos" "spec_index n sz pos < stride sz n"
    using Suc by simp_all
  have sz: "\<forall>d<n. 0 < sz ! d"
  proof (intro allI impI)
    fix d assume "d < n"
    then have "0 \<le> pos ! d \<and> pos ! d < sz ! d" using Suc.prems by simp
    then show "0 < sz ! d" by linarith
  qed
  have st: "0 < stride sz n" using sz by (rule stride_pos)
  have p: "0 \<le> pos ! n" "pos ! n + 1 \<le> sz ! n" using Suc.prems by auto
  have step: "spec_index (Suc n) sz pos = spec_index n sz pos + pos ! n * stride sz n"
    by (simp add: spec_index_def)
  have "(pos ! n + 1) * stride sz n \<le> sz ! n * stride sz n"
    using p(2) st by (intro mult_right_mono) simp_all
  then have ub: "spec_index n sz pos + pos ! n * stride sz n < stride sz n * sz ! n"
    using ih(2) by (simp add: algebra_simps)
  have lb: "0 \<le> pos ! n * stride sz n" using p(1) st by simp
  show ?case using ub lb ih(1) step by simp
qed

lemma stride_prod_list:
  "n \<le> length sz \<Longrightarrow> stride sz n = prod_list (take n sz)"
  by (induction n) (simp_all add: take_Suc_conv_app_nth)

text \<open>
  Claim C8.  For an index tuple inside the bounds both accessors address the cell
  \<open>\<Sum> i_d * stride_d\<close> with \<open>stride_0 = 1\<close>, \<open>stride_d = stride_{d-1} * bin_count_{d-1}\<close>,
  this cell lies inside the buffer of \<open>product bin_count\<close> cells, and reading a tuple
  right after writing \<open>v\<close> at it returns \<open>v\<close>.
\<close>

theorem flattened_store:
  assumes "\<forall>d<D. 0 \<le> pos ! d \<and> pos ! d < sz ! d"
    and "length sz = D" and "length fld = nat (prod_list sz)"
  shows "fst (index_loop D sz pos) = spec_index D sz pos
    \<and> 0 \<le> spec_index D sz pos \<and> spec_index D sz pos < prod_list sz
    \<and> get_pos fld D sz pos = Some (fld ! nat (spec_index D sz pos))
    \<and> set_pos fld v D sz pos s
         = Some (fld[nat (spec_index D sz pos) := v], update_seen D pos s)
    \<and> Option.bind (set_pos fld v D sz pos s) (\<lambda>(fld', s'). get_pos fld' D sz pos)
         = Some v"
proof -
  have b: "0 \<le> spec_index D sz pos" "spec_index D sz pos < prod_list sz"
    using spec_index_bounds [OF assms(1)] stride_prod_list [of D sz] assms(2) by simp_all
  then have l: "spec_index D sz pos < int (length fld)"
    using assms(3) by simp
  show ?thesis using b l
    by (simp add: get_pos_def set_pos_def index_loop_eq)
qed

theorem flattened_store_witness:
  "length [2, 3 :: int] = 2 \<and> length [0, 0, 0, 0, 0, 0 :: int] = nat (prod_list [2, 3])
   \<and> spec_index 2 [2, 3] [1, 2] = 5
   \<and> set_pos [0, 0, 0, 0, 0, 0] 9 2 [2, 3] [1, 2] \<lparr>min_bin_seen = [5, 5], max_bin_seen = [-1, -1]\<rparr>
        = Some ([0, 0, 0, 0, 0, 9], \<lparr>min_bin_seen = [1, 2], max_bin_seen = [1, 2]\<rparr>)"
proof -
  have h: "\<forall>d<2. 0 \<le> [1, 2 :: int] ! d \<and> [1, 2] ! d < [2, 3 :: int] ! d"
    by (simp add: less_Suc_eq numeral_2_eq_2)
  have v: "spec_index 2 [2, 3] [1, 2] = 5"
    by (simp add: spec_index_def numeral_2_eq_2)
  have u: "update_seen 2 [1, 2] \<lparr>min_bin_seen = [5, 5], max_bin_seen = [-1, -1]\<rparr>
       = \<lparr>min_bin_seen = [1, 2], max_bin_seen = [1, 2]\<rparr>"
    by (simp add: update_seen_def numeral_2_eq_2)
  show ?thesis
    using flattened_store [OF h, of "[0, 0, 0, 0, 0, 0]" 9 "\<lparr>min_bin_seen = [5, 5], max_bin_seen = [-1, -1]\<rparr>"] h v u
    by simp
qed

subsection \<open>The position iterator\<close>

lemma adv_loop_odometer:
  "length pre = d \<Longrightarrow> length bpre = d \<Longrightarrow> length ps = length bs \<Longrightarrow> n = d + length ps \<Longrightarrow>
   (case adv_loop (bpre @ bs @ rest) n d (pre @ ps) of (k, pos') \<Rightarrow> (k \<ge> n, pos'))
     = (case odometer bs ps of (ex, ps') \<Rightarrow> (ex, pre @ ps'))"
proof (induction ps arbitrary: pre bpre bs d)
  case Nil
  then show ?case by (simp add: adv_loop.simps)
next
  case (Cons p ps)
  from Cons.prems(3) obtain b bs' where bs: "bs = b # bs'" by (cases bs) simp_all
  have d: "d < n" using Cons.prems bs by simp
  have nth: "(pre @ x # ps) ! d = x" "(bpre @ b # bs' @ rest) ! d = b" for x
    using Cons.prems by (simp_all add: nth_append)
  have upd: "(pre @ p # ps)[d := x] = pre @ x # ps" for x
    using Cons.prems by (simp add: list_update_append)
  show ?case
  proof (cases "b \<le> p + 1")
    case True
    have ih: "(case adv_loop ((bpre @ [b]) @ bs' @ rest) n (Suc d) ((pre @ [0]) @ ps) of
                 (k, pos') \<Rightarrow> (k \<ge> n, pos'))
              = (case odometer bs' ps of (ex, ps') \<Rightarrow> (ex, (pre @ [0]) @ ps'))"
      using Cons.prems bs by (intro Cons.IH) simp_all
    have "adv_loop (bpre @ bs @ rest) n d (pre @ p # ps)
            = adv_loop (bpre @ bs @ rest) n (Suc d) (pre @ 0 # ps)"
      using d True nth upd bs Cons.prems
      by (subst adv_loop.simps) (simp add: Let_def list_update_append)
    then show ?thesis using ih True bs by (simp split: prod.splits)
  next
    case False
    have "adv_loop (bpre @ bs @ rest) n d (pre @ p # ps) = (d, pre @ (p + 1) # ps)"
      using d False nth upd bs Cons.prems
      by (subst adv_loop.simps) (simp add: Let_def list_update_append)
    then show ?thesis using False bs d by simp
  qed
qed

lemma adv_pos_odometer:
  assumes "length pos \<le> length bs"
  shows "adv_pos bs (length pos) pos = odometer (take (length pos) bs) pos"
proof -
  have "bs = [] @ take (length pos) bs @ drop (length pos) bs" by simp
  then show ?thesis
    using adv_loop_odometer [of "[]" 0 "[]" pos "take (length pos) bs" "length pos"
        "drop (length pos) bs"] assms
    by (simp add: adv_pos_def split: prod.splits)
qed

text \<open>
  Claim C7.  \<open>adv_pos\<close> is the odometer of the specification: it increments dimension 0
  first, resets a dimension to 0 and carries into the next one when the bound is reached,
  and returns exhaustion exactly when the carry leaves the last dimension.  Over the
  bounds \<open>[2,3]\<close> it visits \<open>(0,0),(1,0),(0,1),(1,1),(0,2),(1,2)\<close> in this order and
  then reports exhaustion (returning to \<open>(0,0)\<close>).
\<close>

theorem adv_pos_is_odometer:
  "(length pos = D \<and> length bs = D \<longrightarrow> adv_pos bs D pos = odometer bs pos)
   \<and> adv_pos [2, 3] 2 [0, 0] = (False, [1, 0])
   \<and> adv_pos [2, 3] 2 [1, 0] = (False, [0, 1])
   \<and> adv_pos [2, 3] 2 [0, 1] = (False, [1, 1])
   \<and> adv_pos [2, 3] 2 [1, 1] = (False, [0, 2])
   \<and> adv_pos [2, 3] 2 [0, 2] = (False, [1, 2])
   \<and> adv_pos [2, 3] 2 [1, 2] = (True, [0, 0])"
proof -
  have gen: "length pos = D \<and> length bs = D \<longrightarrow> adv_pos bs D pos = odometer bs pos"
    using adv_pos_odometer [of pos bs] by auto
  have c1: "adv_pos [2, 3] 2 [0, 0] = (False, [1, 0])" by code_simp
  have c2: "adv_pos [2, 3] 2 [1, 0] = (False, [0, 1])" by code_simp
  have c3: "adv_pos [2, 3] 2 [0, 1] = (False, [1, 1])" by code_simp
  have c4: "adv_pos [2, 3] 2 [1, 1] = (False, [0, 2])" by code_simp
  have c5: "adv_pos [2, 3] 2 [0, 2] = (False, [1, 2])" by code_simp
  have c6: "adv_pos [2, 3] 2 [1, 2] = (True, [0, 0])" by code_simp
  show ?thesis
    using gen c1 c2 c3 c4 c5 c6 by blast
qed

theorem adv_pos_is_odometer_witness:
  "length [1, 0 :: int] = 2 \<and> length [2, 3 :: int] = 2
   \<and> adv_pos [2, 3] 2 [1, 0] = odometer [2, 3] [1, 0]
   \<and> odometer [2, 3] [1, 0] = (False, [0, 1])"
  using adv_pos_is_odometer [of "[1, 0]" 2 "[2, 3]"] by simp

subsection \<open>The traversal of the cells\<close>

lemma stride_Cons: "stride (b # bs) (Suc d) = b * stride bs d"
  by (induction d) simp_all

lemma spec_index_Cons:
  "spec_index (Suc n) (b # bs) (p # ps) = p + b * spec_index n bs ps"
proof -
  have "(\<Sum>d<n. (p # ps) ! Suc d * stride (b # bs) (Suc d))
          = b * (\<Sum>d<n. ps ! d * stride bs d)"
    by (simp add: stride_Cons sum_distrib_left mult_ac del: stride.simps)
  moreover have "spec_index (Suc n) (b # bs) (p # ps)
      = (p # ps) ! 0 * stride (b # bs) 0 + (\<Sum>d<n. (p # ps) ! Suc d * stride (b # bs) (Suc d))"
    unfolding spec_index_def by (rule sum.lessThan_Suc_shift)
  ultimately show ?thesis
    by (simp add: spec_index_def del: stride.simps(2))
qed

lemma stride_take: "d \<le> n \<Longrightarrow> stride (take n bs) d = stride bs d"
  by (induction d) simp_all

lemma spec_index_take: "spec_index n (take n bs) pos = spec_index n bs pos"
  by (simp add: spec_index_def stride_take)

lemma odometer_step:
  assumes "list_all2 (\<lambda>p b. 0 \<le> p \<and> p < b) ps bs"
  shows "case odometer bs ps of (ex, ps') \<Rightarrow>
     (if ex then spec_index (length ps) bs ps + 1 = prod_list bs
      else spec_index (length ps) bs ps' = spec_index (length ps) bs ps + 1
           \<and> list_all2 (\<lambda>p b. 0 \<le> p \<and> p < b) ps' bs)"
  using assms
proof (induction rule: list_all2_induct)
  case Nil
  show ?case by (simp add: spec_index_def)
next
  case (Cons p ps b bs)
  show ?case
  proof (cases "b \<le> p + 1")
    case True
    then have pb: "p + 1 = b" using Cons.hyps by simp
    obtain ex ps' where o: "odometer bs ps = (ex, ps')" by (cases "odometer bs ps")
    show ?thesis
    proof (cases ex)
      case True
      then have "spec_index (length ps) bs ps + 1 = prod_list bs"
        using Cons.IH o by simp
      then have "b * (spec_index (length ps) bs ps + 1) = b * prod_list bs" by simp
      then show ?thesis using o True pb
        by (simp add: spec_index_Cons algebra_simps del: stride.simps)
    next
      case False
      then have ih: "spec_index (length ps) bs ps' = spec_index (length ps) bs ps + 1"
        "list_all2 (\<lambda>p b. 0 \<le> p \<and> p < b) ps' bs"
        using Cons.IH o by simp_all
      have "b > 0" using Cons.hyps by simp
      then show ?thesis using o False pb ih
        by (simp add: spec_index_Cons algebra_simps del: stride.simps)
    qed
  next
    case False
    then show ?thesis using Cons.hyps
      by (simp add: spec_index_Cons del: stride.simps)
  qed
qed

lemma adv_pos_step:
  assumes "n \<le> length bs" "length pos = n" "\<forall>d<n. 0 \<le> pos ! d \<and> pos ! d < bs ! d"
  shows "case adv_pos bs n pos of (ex, pos') \<Rightarrow>
     (if ex then spec_index n bs pos + 1 = stride bs n
      else spec_index n bs pos' = spec_index n bs pos + 1 \<and> length pos' = n
           \<and> (\<forall>d<n. 0 \<le> pos' ! d \<and> pos' ! d < bs ! d))"
proof -
  have v: "list_all2 (\<lambda>p b. 0 \<le> p \<and> p < b) pos (take n bs)"
    using assms by (simp add: list_all2_conv_all_nth)
  have a: "adv_pos bs n pos = odometer (take n bs) pos"
    using adv_pos_odometer [of pos bs] assms by simp
  obtain ex pos' where o: "odometer (take n bs) pos = (ex, pos')"
    by (cases "odometer (take n bs) pos")
  have s: "if ex then spec_index n (take n bs) pos + 1 = prod_list (take n bs)
      else spec_index n (take n bs) pos' = spec_index n (take n bs) pos + 1
           \<and> list_all2 (\<lambda>p b. 0 \<le> p \<and> p < b) pos' (take n bs)"
    using odometer_step [OF v] o unfolding assms(2) by (cases ex) simp_all
  show ?thesis
  proof (cases ex)
    case True
    then show ?thesis using s a o assms(1)
      by (simp add: spec_index_take stride_prod_list)
  next
    case False
    then have l: "list_all2 (\<lambda>p b. 0 \<le> p \<and> p < b) pos' (take n bs)" using s by simp
    then have len: "length pos' = n" using assms(1) by (auto dest: list_all2_lengthD)
    have "\<forall>d<n. 0 \<le> pos' ! d \<and> pos' ! d < bs ! d"
      using l len assms(1) by (auto simp: list_all2_conv_all_nth)
    then show ?thesis using s a o False len
      by (simp add: spec_index_take)
  qed
qed

lemma get_pos_cell:
  assumes "\<forall>d<n. 0 \<le> pos ! d \<and> pos ! d < bs ! d" "length fld = nat (stride bs n)"
  shows "get_pos fld n bs pos = Some (fld ! nat (spec_index n bs pos))"
    and "0 \<le> spec_index n bs pos" and "nat (spec_index n bs pos) < length fld"
proof -
  have b: "0 \<le> spec_index n bs pos" "spec_index n bs pos < stride bs n"
    using spec_index_bounds [OF assms(1)] by simp_all
  show "0 \<le> spec_index n bs pos" by (rule b)
  show "nat (spec_index n bs pos) < length fld" using b assms(2) by simp
  have "spec_index n bs pos < int (length fld)" using b assms(2) by simp
  then show "get_pos fld n bs pos = Some (fld ! nat (spec_index n bs pos))"
    using b by (simp add: get_pos_def index_loop_eq)
qed

lemma max_loop_from:
  assumes "nat (dims c) \<le> length (bins c)"
    and "length fld = nat (stride (bins c) (nat (dims c)))"
    and "length pos = nat (dims c)"
    and "\<forall>d<nat (dims c). 0 \<le> pos ! d \<and> pos ! d < bins c ! d"
  shows "max_loop c fld mx pos
     = Some (Return (fold (\<lambda>v m. max m v)
          (drop (nat (spec_index (nat (dims c)) (bins c) pos)) fld) mx))"
  using assms(3,4)
proof (induction pos arbitrary: mx rule: measure_induct_rule
    [where f = "\<lambda>pos. nat (stride (bins c) (nat (dims c)) - spec_index (nat (dims c)) (bins c) pos)"])
  case (less pos)
  define n where "n = nat (dims c)"
  define i where "i = spec_index n (bins c) pos"
  have v: "\<forall>d<n. 0 \<le> pos ! d \<and> pos ! d < bins c ! d" using less.prems n_def by simp
  have len: "length fld = nat (stride (bins c) n)" using assms(2) n_def by simp
  have g: "get_pos fld n (bins c) pos = Some (fld ! nat i)" and i0: "0 \<le> i"
    and il: "nat i < length fld"
    using get_pos_cell [OF v len] i_def by simp_all
  have d: "drop (nat i) fld = fld ! nat i # drop (Suc (nat i)) fld"
    using il by (simp add: Cons_nth_drop_Suc)
  obtain ex pos' where a: "adv_pos (bins c) n pos = (ex, pos')"
    by (cases "adv_pos (bins c) n pos")
  have st: "if ex then i + 1 = stride (bins c) n
      else spec_index n (bins c) pos' = i + 1 \<and> length pos' = n
           \<and> (\<forall>d<n. 0 \<le> pos' ! d \<and> pos' ! d < bins c ! d)"
    using adv_pos_step [of n "bins c" pos] assms(1) less.prems a v
    unfolding n_def [symmetric] i_def [symmetric] by (cases ex) simp_all
  show ?case
  proof (cases ex)
    case True
    then have "Suc (nat i) = length fld" using st len i0 by simp
    then have "drop (nat i) fld = [fld ! nat i]" using d by simp
    then show ?thesis using g a True
      by (subst max_loop.simps) (simp add: n_def [symmetric] i_def [symmetric])
  next
    case False
    then have s': "spec_index n (bins c) pos' = i + 1" "length pos' = n"
      "\<forall>d<n. 0 \<le> pos' ! d \<and> pos' ! d < bins c ! d"
      using st by simp_all
    have "i < stride (bins c) n" using il len by simp
    then have m: "nat (stride (bins c) n - spec_index n (bins c) pos')
        < nat (stride (bins c) n - spec_index n (bins c) pos)"
      using s'(1) i_def by simp
    have ih: "max_loop c fld (max mx (fld ! nat i)) pos'
        = Some (Return (fold (\<lambda>v m. max m v) (drop (nat (i + 1)) fld) (max mx (fld ! nat i))))"
      using less.IH [of pos' "max mx (fld ! nat i)"] m s' n_def by simp
    have "nat (i + 1) = Suc (nat i)" using i0 by simp
    then show ?thesis using g a False ih d
      by (subst max_loop.simps) (simp add: n_def [symmetric] i_def [symmetric])
  qed
qed

lemma raw_loop_from:
  assumes "nat (dims c) \<le> length (bins c)"
    and "length fld = nat (stride (bins c) (nat (dims c)))"
    and "length pos = nat (dims c)"
    and "\<forall>d<nat (dims c). 0 \<le> pos ! d \<and> pos ! d < bins c ! d"
  shows "raw_loop fl c fld mx pos
     = Some (raw_samples fl c mx (drop (nat (spec_index (nat (dims c)) (bins c) pos)) fld))"
  using assms(3,4)
proof (induction pos rule: measure_induct_rule
    [where f = "\<lambda>pos. nat (stride (bins c) (nat (dims c)) - spec_index (nat (dims c)) (bins c) pos)"])
  case (less pos)
  define n where "n = nat (dims c)"
  define i where "i = spec_index n (bins c) pos"
  have v: "\<forall>d<n. 0 \<le> pos ! d \<and> pos ! d < bins c ! d" using less.prems n_def by simp
  have len: "length fld = nat (stride (bins c) n)" using assms(2) n_def by simp
  have g: "get_pos fld n (bins c) pos = Some (fld ! nat i)" and i0: "0 \<le> i"
    and il: "nat i < length fld"
    using get_pos_cell [OF v len] i_def by simp_all
  have d: "drop (nat i) fld = fld ! nat i # drop (Suc (nat i)) fld"
    using il by (simp add: Cons_nth_drop_Suc)
  obtain ex pos' where a: "adv_pos (bins c) n pos = (ex, pos')"
    by (cases "adv_pos (bins c) n pos")
  have st: "if ex then i + 1 = stride (bins c) n
      else spec_index n (bins c) pos' = i + 1 \<and> length pos' = n
           \<and> (\<forall>d<n. 0 \<le> pos' ! d \<and> pos' ! d < bins c ! d)"
    using adv_pos_step [of n "bins c" pos] assms(1) less.prems a v
    unfolding n_def [symmetric] i_def [symmetric] by (cases ex) simp_all
  show ?case
  proof (cases "raw_sample fl c (fld ! nat i) mx")
    case None
    then show ?thesis using g d
      by (subst raw_loop.simps) (simp add: n_def [symmetric] i_def [symmetric])
  next
    case (Some bytes)
    show ?thesis
    proof (cases ex)
      case True
      then have "Suc (nat i) = length fld" using st len i0 by simp
      then have "drop (nat i) fld = [fld ! nat i]" using d by simp
      then show ?thesis using g a True Some
        by (subst raw_loop.simps) (simp add: n_def [symmetric] i_def [symmetric])
    next
      case False
      then have s': "spec_index n (bins c) pos' = i + 1" "length pos' = n"
        "\<forall>d<n. 0 \<le> pos' ! d \<and> pos' ! d < bins c ! d"
        using st by simp_all
      have "i < stride (bins c) n" using il len by simp
      then have m: "nat (stride (bins c) n - spec_index n (bins c) pos')
          < nat (stride (bins c) n - spec_index n (bins c) pos)"
        using s'(1) i_def by simp
      have ih: "raw_loop fl c fld mx pos'
          = Some (raw_samples fl c mx (drop (nat (i + 1)) fld))"
        using less.IH [of pos'] m s' n_def by simp
      have "nat (i + 1) = Suc (nat i)" using i0 by simp
      then show ?thesis using g a False ih d Some
        by (subst raw_loop.simps) (simp add: n_def [symmetric] i_def [symmetric])
    qed
  qed
qed

subsection \<open>The import\<close>

lemma fold_conj:
  "fold (\<lambda>d r. r \<and> P d) xs b = (b \<and> list_all P xs)"
  by (induction xs arbitrary: b) auto

lemma in_range_spec: "in_range c v = spec_in_range c v"
  by (simp add: in_range_def spec_in_range_def fold_conj conj_assoc)

lemma in_range_iff:
  "in_range c v \<longleftrightarrow> (\<forall>d<nat (dims c). low c ! d \<le> v ! d \<and> v ! d < hi c ! d)"
  by (auto simp: in_range_spec spec_in_range_def list_all_iff)

lemma upper_bound_rejected:
  "d < nat (dims c) \<Longrightarrow> v ! d = hi c ! d \<Longrightarrow> \<not> in_range c v"
  by (auto simp: in_range_iff)

lemma lower_bound_bin_zero:
  "fl 0 = 0 \<Longrightarrow> v ! d = low c ! d \<Longrightarrow> bin_index fl c v d = 0"
  by (simp add: bin_index_def)

lemma exact_bin_index_range:
  assumes "in_range c v" "d < nat (dims c)" "0 < bins c ! d"
    and "bsize c ! d = (hi c ! d - low c ! d) / of_int (bins c ! d)"
  shows "0 \<le> bin_index (\<lambda>x. x) c v d \<and> bin_index (\<lambda>x. x) c v d < bins c ! d"
proof -
  have r: "low c ! d \<le> v ! d" "v ! d < hi c ! d" using assms(1,2) by (auto simp: in_range_iff)
  then have w: "0 < hi c ! d - low c ! d" by simp
  have b: "(0::rat) < of_int (bins c ! d)" using assms(3) by simp
  have q: "(v ! d - low c ! d) / bsize c ! d
      = (v ! d - low c ! d) * of_int (bins c ! d) / (hi c ! d - low c ! d)"
    using assms(4) by simp
  have "0 \<le> (v ! d - low c ! d) * of_int (bins c ! d) / (hi c ! d - low c ! d)"
    using r w b by simp
  moreover have "(v ! d - low c ! d) * of_int (bins c ! d) / (hi c ! d - low c ! d)
      < of_int (bins c ! d)"
  proof -
    have "(v ! d - low c ! d) * of_int (bins c ! d) < (hi c ! d - low c ! d) * of_int (bins c ! d)"
      using r b by (intro mult_strict_right_mono) simp_all
    then show ?thesis using w by (simp add: pos_divide_less_eq mult.commute)
  qed
  ultimately show ?thesis
    by (simp add: bin_index_def q floor_less_iff)
qed

lemma parse_c3:
  "parseOptions [OptD 1, OptL 0, OptH 1, OptW 3] False globals0
   = Some (0, globals0\<lparr>dims := 1, low := (low globals0)[0 := 0], hi := (hi globals0)[0 := 1],
        bins := (bins globals0)[0 := 3]\<rparr>)"
  by (simp add: parseOptions_def globals0_def MAX_DIM_def range_error_def)

lemma configure_c3:
  "configure b64 [OptD 1, OptL 0, OptH 1, OptW 3]
   = globals0\<lparr>dims := 1, low := (low globals0)[0 := 0], hi := (hi globals0)[0 := 1],
        bins := (bins globals0)[0 := 3],
        bsize := (bsize globals0)[0 := 6004799503160661 / 18014398509481984]\<rparr>"
  by (simp add: configure_def parse_c3) (simp add: compute_sizes_def globals0_def MAX_DIM_def b64_vals)

text \<open>
  Claim C3.  The membership test is the half-open interval (\<open>in_range_iff\<close>), a
  coordinate equal to \<open>hi\<close> is rejected and one equal to \<open>low\<close> gets bin 0, and in
  exact arithmetic the bin index lies in \<open>[0, bins)\<close> (the three lemmas above).  In
  binary64 arithmetic the last part fails: with \<open>-d 1 -l 0 -h 1 -w 3\<close> the bin width is
  the double below \<open>1/3\<close>, and for the largest double below 1 the quotient rounds up to
  \<open>3.0\<close>.  The tuple is accepted with bin index 3 of 3 bins, and \<open>get_pos\<close> and \<open>set_pos\<close>
  access the cell behind the buffer.
\<close>

theorem bin_index_reaches_bin_count:
  "in_range (configure b64 [OptD 1, OptL 0, OptH 1, OptW 3]) [1 - 1 / 2 ^ 53]
   \<and> bin_pos b64 (configure b64 [OptD 1, OptL 0, OptH 1, OptW 3]) [1 - 1 / 2 ^ 53] = [3]
   \<and> bins (configure b64 [OptD 1, OptL 0, OptH 1, OptW 3]) ! 0 = 3
   \<and> length (field (initial_state (configure b64 [OptD 1, OptL 0, OptH 1, OptW 3]))) = 3
   \<and> main b64 [OptD 1, OptL 0, OptH 1, OptW 3] False [Data [1 - 1 / 2 ^ 53]] = Some Undefined"
proof -
  let ?c = "configure b64 [OptD 1, OptL 0, OptH 1, OptW 3]"
  have a: "in_range ?c [1 - 1 / 2 ^ 53]"
    unfolding configure_c3 by (simp add: eval_defs globals0_def)
  have b: "bin_pos b64 ?c [1 - 1 / 2 ^ 53] = [3]"
    unfolding configure_c3 by (simp add: eval_defs globals0_def b64_vals)
  have c: "bins ?c ! 0 = 3"
    unfolding configure_c3 by (simp add: eval_defs globals0_def)
  have d: "length (field (initial_state ?c)) = 3"
    unfolding configure_c3 by (simp add: eval_defs globals0_def)
  have "import b64 ?c [Data [1 - 1 / 2 ^ 53]] (initial_state ?c) = Undefined"
    unfolding configure_c3 by (simp add: eval_defs globals0_def b64_vals)
  then have e: "main b64 [OptD 1, OptL 0, OptH 1, OptW 3] False [Data [1 - 1 / 2 ^ 53]]
      = Some Undefined"
    using configure_c3 by (simp add: main_def parse_c3 configure_def)
  show ?thesis using a b c d e by (intro conjI)
qed



lemma import_data_reject:
  assumes "nat (dims c) \<le> length v" "\<not> in_range c v"
  shows "import_loop fl c (Data v # ls) st
     = import_loop fl c ls (st\<lparr>oor := oor st + 1, count := count st + 1\<rparr>)"
  using assms by simp



lemma int32_id: "0 \<le> x \<Longrightarrow> x < 2 ^ 31 \<Longrightarrow> int32 x = x"
  by (simp add: int32_def)

lemma array_size_stride:
  assumes "\<forall>d<nat (dims c). 1 \<le> bins c ! d" and "stride (bins c) (nat (dims c)) < 2 ^ 31"
  shows "array_size c = stride (bins c) (nat (dims c))"
proof -
  have "(\<forall>d<n. 1 \<le> bs ! d) \<Longrightarrow> stride bs n < 2 ^ 31 \<Longrightarrow>
      fold (\<lambda>dim temp. int32 (temp * bs ! dim)) [0..<n] 1 = stride bs n \<and> 1 \<le> stride bs n"
    for bs :: "int list" and n
  proof (induction n)
    case 0
    show ?case by simp
  next
    case (Suc n)
    have b: "1 \<le> bs ! n" using Suc.prems(1) by simp
    have p: "stride bs n * bs ! n < 2 ^ 31" using Suc.prems(2) by simp
    have lt: "stride bs n < 2 ^ 31"
    proof (cases "stride bs n < 0")
      case True
      then show ?thesis by simp
    next
      case False
      then have "stride bs n * 1 \<le> stride bs n * bs ! n"
        using b by (intro mult_left_mono) simp_all
      then show ?thesis using p by simp
    qed
    have ih: "fold (\<lambda>dim temp. int32 (temp * bs ! dim)) [0..<n] 1 = stride bs n"
      and one: "1 \<le> stride bs n"
      using Suc.IH [OF _ lt] Suc.prems(1) by simp_all
    have one': "1 \<le> stride bs n * bs ! n"
      using one b mult_mono [of 1 "stride bs n" 1 "bs ! n"] by simp
    then have "int32 (stride bs n * bs ! n) = stride bs n * bs ! n"
      using p by (simp add: int32_id)
    then show ?case using ih one' by simp
  qed
  then show ?thesis using assms by (simp add: array_size_def)
qed

text \<open>With \<open>-w 65536 -w 65536\<close> the product is \<open>2^32\<close> and \<open>temp\<close> is 0.\<close>

lemma array_size_wraps:
  "array_size (globals0\<lparr>dims := 2, bins := (bins globals0)[0 := 65536, 1 := 65536]\<rparr>) = 0"
  by (simp add: array_size_def int32_def globals0_def MAX_DIM_def numeral_2_eq_2
      replicate_numeral)


text \<open>
  Claim C4.  A run of the import loop that stays inside the buffer adds the number of
  accepted tuples to the sum of the cells (\<open>import_loop_inv\<close>, \<open>import_Return\<close>).  The
  program does not keep the increment of an accepted tuple inside the buffer.  With
  \<open>-d 1 -l 0 -h 1 -w 3\<close> and the largest double below 1, one tuple is read and it is
  accepted; the buffer has the three cells \<open>[0, 0, 0]\<close> and the cell that \<open>import\<close>
  increments is \<open>field[3]\<close>, behind them.  No cell of the histogram counts the tuple:
  the sum of the cells is not the number of accepted tuples.
\<close>

theorem accepted_tuple_increments_no_cell:
  "accepted (configure b64 [OptD 1, OptL 0, OptH 1, OptW 3]) [Data [1 - 1 / 2 ^ 53]] = 1
   \<and> tuples_read (configure b64 [OptD 1, OptL 0, OptH 1, OptW 3]) [Data [1 - 1 / 2 ^ 53]] = 1
   \<and> field (initial_state (configure b64 [OptD 1, OptL 0, OptH 1, OptW 3])) = [0, 0, 0]
   \<and> fst (index_loop 1 (bins (configure b64 [OptD 1, OptL 0, OptH 1, OptW 3]))
        (bin_pos b64 (configure b64 [OptD 1, OptL 0, OptH 1, OptW 3]) [1 - 1 / 2 ^ 53])) = 3
   \<and> get_pos [0, 0, 0] 1 (bins (configure b64 [OptD 1, OptL 0, OptH 1, OptW 3]))
        (bin_pos b64 (configure b64 [OptD 1, OptL 0, OptH 1, OptW 3]) [1 - 1 / 2 ^ 53]) = None
   \<and> import b64 (configure b64 [OptD 1, OptL 0, OptH 1, OptW 3]) [Data [1 - 1 / 2 ^ 53]]
        (initial_state (configure b64 [OptD 1, OptL 0, OptH 1, OptW 3])) = Undefined"
proof -
  let ?c = "configure b64 [OptD 1, OptL 0, OptH 1, OptW 3]"
  have a: "accepted ?c [Data [1 - 1 / 2 ^ 53]] = 1"
    unfolding configure_c3 by (simp add: eval_defs globals0_def)
  have b: "tuples_read ?c [Data [1 - 1 / 2 ^ 53]] = 1"
    unfolding configure_c3 by (simp add: eval_defs globals0_def)
  have c: "field (initial_state ?c) = [0, 0, 0]"
    unfolding configure_c3 by (simp add: eval_defs globals0_def)
  have d: "fst (index_loop 1 (bins ?c) (bin_pos b64 ?c [1 - 1 / 2 ^ 53])) = 3"
    unfolding configure_c3 by (simp add: eval_defs globals0_def b64_vals)
  have e: "get_pos [0, 0, 0] 1 (bins ?c) (bin_pos b64 ?c [1 - 1 / 2 ^ 53]) = None"
    unfolding configure_c3 by (simp add: eval_defs globals0_def b64_vals)
  have f: "import b64 ?c [Data [1 - 1 / 2 ^ 53]] (initial_state ?c) = Undefined"
    unfolding configure_c3 by (simp add: eval_defs globals0_def b64_vals)
  show ?thesis using a b c d e f by (intro conjI)
qed

subsection \<open>The first pass of the raw modes\<close>

lemma fold_max_Max:
  "fold (\<lambda>v m. max m v) xs (m0 :: int) = Max (insert m0 (set xs))"
proof (induction xs arbitrary: m0)
  case Nil
  show ?case by simp
next
  case (Cons x xs)
  have "Max (insert (max m0 x) (set xs)) = Max (insert m0 (insert x (set xs)))"
  proof (cases "set xs = {}")
    case True
    then show ?thesis by (simp add: max.commute)
  next
    case False
    then show ?thesis by (simp add: max.assoc)
  qed
  then show ?case using Cons.IH [of "max m0 x"] by simp
qed

lemma spec_index_zero: "spec_index n bs (replicate n 0) = 0"
  by (simp add: spec_index_def)

lemma max_loop_all:
  assumes "nat (dims c) \<le> length (bins c)" "\<forall>d<nat (dims c). 1 \<le> bins c ! d"
    and "length fld = nat (stride (bins c) (nat (dims c)))"
  shows "max_loop c fld 0 (replicate (nat (dims c)) 0) = Some (Return (Max (insert 0 (set fld))))"
proof -
  have v: "\<forall>d<nat (dims c). 0 \<le> replicate (nat (dims c)) (0::int) ! d
      \<and> replicate (nat (dims c)) 0 ! d < bins c ! d"
    using assms(2) by auto
  show ?thesis
    using max_loop_from [OF assms(1) assms(3) _ v, of 0]
    by (simp add: spec_index_zero fold_max_Max)
qed

lemma parse_c10:
  "parseOptions [Raw8, OptR, OptD 2, OptL 0, OptH 1, OptW 1, OptL 0, OptH 1, OptW 3] False globals0
   = Some (0, globals0\<lparr>dims := 2, low := (low globals0)[0 := 0, 1 := 0],
        hi := (hi globals0)[0 := 1, 1 := 1], bins := (bins globals0)[0 := 1, 1 := 3],
        relative := True, raw8 := True\<rparr>)"
  by (simp add: parseOptions_def globals0_def MAX_DIM_def range_error_def
      numeral_2_eq_2 replicate_numeral)

lemma configure_c10:
  "configure b64 [Raw8, OptR, OptD 2, OptL 0, OptH 1, OptW 1, OptL 0, OptH 1, OptW 3]
   = globals0\<lparr>dims := 2, low := (low globals0)[0 := 0, 1 := 0],
        hi := (hi globals0)[0 := 1, 1 := 1], bins := (bins globals0)[0 := 1, 1 := 3],
        relative := True, raw8 := True,
        bsize := (bsize globals0)[0 := 1, 1 := 6004799503160661 / 18014398509481984]\<rparr>"
  by (simp add: configure_def parse_c10)
    (simp add: compute_sizes_def globals0_def MAX_DIM_def b64_vals
      numeral_2_eq_2 replicate_numeral)

text \<open>
  Claim C10.  The first pass returns the largest cell of the buffer (\<open>max_loop_all\<close>),
  but an accepted tuple need not have incremented one of them.  With
  \<open>--raw8 -r -d 2 -l 0 -h 1 -w 1 -l 0 -h 1 -w 3\<close> and the line
  \<open>0.5 0.99999999999999989\<close> the tuple is accepted with the bin indices \<open>(0, 3)\<close>, which
  address \<open>field[3]\<close> of a buffer of three cells.  \<open>import\<close> does not exit, the three
  cells are still 0, the first pass over them finds \<open>max = 0\<close>, and the sample of every
  cell is a quotient by zero.
\<close>

theorem raw_max_zero:
  "accepted (configure b64 [Raw8, OptR, OptD 2, OptL 0, OptH 1, OptW 1, OptL 0, OptH 1, OptW 3])
      [Data [1 / 2, 1 - 1 / 2 ^ 53]] = 1
   \<and> bin_pos b64 (configure b64 [Raw8, OptR, OptD 2, OptL 0, OptH 1, OptW 1, OptL 0, OptH 1, OptW 3])
        [1 / 2, 1 - 1 / 2 ^ 53] = [0, 3]
   \<and> field (initial_state
        (configure b64 [Raw8, OptR, OptD 2, OptL 0, OptH 1, OptW 1, OptL 0, OptH 1, OptW 3]))
      = [0, 0, 0]
   \<and> fst (index_loop 2
        (bins (configure b64 [Raw8, OptR, OptD 2, OptL 0, OptH 1, OptW 1, OptL 0, OptH 1, OptW 3]))
        [0, 3]) = 3
   \<and> max_loop (configure b64 [Raw8, OptR, OptD 2, OptL 0, OptH 1, OptW 1, OptL 0, OptH 1, OptW 3])
        [0, 0, 0] 0 [0, 0] = Some (Return 0)
   \<and> raw_sample b64
        (configure b64 [Raw8, OptR, OptD 2, OptL 0, OptH 1, OptW 1, OptL 0, OptH 1, OptW 3]) 0 0
      = None
   \<and> main b64 [Raw8, OptR, OptD 2, OptL 0, OptH 1, OptW 1, OptL 0, OptH 1, OptW 3] False
        [Data [1 / 2, 1 - 1 / 2 ^ 53]] = Some Undefined"
proof -
  let ?opts = "[Raw8, OptR, OptD 2, OptL 0, OptH 1, OptW 1, OptL 0, OptH 1, OptW 3]"
  let ?c = "configure b64 ?opts"
  have a: "accepted ?c [Data [1 / 2, 1 - 1 / 2 ^ 53]] = 1"
    unfolding configure_c10 by (simp add: eval_defs globals0_def numeral_2_eq_2)
  have b: "bin_pos b64 ?c [1 / 2, 1 - 1 / 2 ^ 53] = [0, 3]"
    unfolding configure_c10 by (simp add: eval_defs globals0_def b64_vals numeral_2_eq_2)
  have c: "field (initial_state ?c) = [0, 0, 0]"
    unfolding configure_c10 by (simp add: eval_defs globals0_def numeral_2_eq_2)
  have d: "fst (index_loop 2 (bins ?c) [0, 3]) = 3"
    unfolding configure_c10 by (simp add: eval_defs globals0_def numeral_2_eq_2)
  have h1: "nat (dims ?c) \<le> length (bins ?c)"
    unfolding configure_c10 by (simp add: globals0_def MAX_DIM_def)
  have h2: "\<forall>d<nat (dims ?c). 1 \<le> bins ?c ! d"
    unfolding configure_c10
    by (simp add: globals0_def MAX_DIM_def less_Suc_eq numeral_2_eq_2 replicate_numeral)
  have h3: "length [0, 0, 0 :: int] = nat (stride (bins ?c) (nat (dims ?c)))"
    unfolding configure_c10
    by (simp add: globals0_def MAX_DIM_def numeral_2_eq_2 replicate_numeral)
  have n: "replicate (nat (dims ?c)) 0 = [0, 0 :: int]"
    unfolding configure_c10 by (simp add: globals0_def numeral_2_eq_2)
  have e: "max_loop ?c [0, 0, 0] 0 [0, 0] = Some (Return 0)"
    using max_loop_all [OF h1 h2 h3] n by simp
  have f: "raw_sample b64 ?c 0 0 = None" by (simp add: raw_sample_def)
  have "import b64 ?c [Data [1 / 2, 1 - 1 / 2 ^ 53]] (initial_state ?c) = Undefined"
    unfolding configure_c10 by (simp add: eval_defs globals0_def b64_vals numeral_2_eq_2)
  then have g: "main b64 ?opts False [Data [1 / 2, 1 - 1 / 2 ^ 53]] = Some Undefined"
    using configure_c10 by (simp add: main_def parse_c10 configure_def)
  show ?thesis using a b c d e f g by (intro conjI)
qed

subsection \<open>The raw output\<close>

lemma start_pos_zero:
  "\<not> omit_outer_zero c \<Longrightarrow> start_pos c s = replicate (nat (dims c)) 0"
  by (simp add: start_pos_def map_replicate_const)

lemma output_raw:
  assumes "nat (dims c) \<le> length (bins c)" and "\<forall>d<nat (dims c). 1 \<le> bins c ! d"
    and "length fld = nat (stride (bins c) (nat (dims c)))"
    and "raw8 c \<or> raw16 c" and "\<not> omit_outer_zero c"
  shows "output_stdout fl c s fld cnt = Some (raw_samples fl c (Max (insert 0 (set fld))) fld)"
proof -
  have v: "\<forall>d<nat (dims c). 0 \<le> replicate (nat (dims c)) (0::int) ! d
      \<and> replicate (nat (dims c)) 0 ! d < bins c ! d"
    using assms(2) by auto
  have r: "raw_loop fl c fld mx (replicate (nat (dims c)) 0) = Some (raw_samples fl c mx fld)" for mx
    using raw_loop_from [OF assms(1) assms(3) _ v, of fl mx] by (simp add: spec_index_zero)
  show ?thesis
    using assms(4) by (simp add: output_stdout_def max_loop_all [OF assms(1-3)]
        start_pos_zero [OF assms(5)] r)
qed

lemma trunc_exact_quotient:
  assumes "0 \<le> v" "v \<le> mx" "0 < mx" "0 \<le> k"
  shows "trunc (rat_of_int v / rat_of_int mx * rat_of_int k) = v * k div mx"
    and "0 \<le> v * k div mx" and "v * k div mx \<le> k"
proof -
  have "rat_of_int v / rat_of_int mx * rat_of_int k = rat_of_int (v * k) / rat_of_int mx"
    by simp
  moreover have "0 \<le> rat_of_int (v * k) / rat_of_int mx" using assms by simp
  ultimately show "trunc (rat_of_int v / rat_of_int mx * rat_of_int k) = v * k div mx"
    by (simp only: trunc_def floor_divide_of_int_eq if_True)
  show "0 \<le> v * k div mx" using assms by (simp add: pos_imp_zdiv_nonneg_iff)
  have "v * k \<le> mx * k" using assms by (intro mult_right_mono) simp_all
  then have "v * k div mx \<le> mx * k div mx" by (rule zdiv_mono1) (rule assms(3))
  then show "v * k div mx \<le> k" using assms(3) by simp
qed

lemma cell_of_sample_2d:
  assumes "dims c = 2" "1 \<le> bins c ! 0" "length fld = nat (bins c ! 0 * bins c ! 1)" "i < length fld"
  shows "get_pos fld 2 (bins c) [int i mod bins c ! 0, int i div bins c ! 0] = Some (fld ! i)"
proof -
  let ?b0 = "bins c ! 0" and ?b1 = "bins c ! 1"
  let ?pos = "[int i mod ?b0, int i div ?b0]"
  have i: "int i < ?b0 * ?b1" using assms(3,4) by linarith
  have p1: "int i div ?b0 < ?b1"
  proof (rule ccontr)
    assume "\<not> int i div ?b0 < ?b1"
    then have "?b1 * ?b0 \<le> (int i div ?b0) * ?b0"
      using assms(2) by (intro mult_right_mono) simp_all
    moreover have "(int i div ?b0) * ?b0 \<le> int i"
      using div_mult_mod_eq [of "int i" ?b0] pos_mod_sign [of ?b0 "int i"] assms(2) by linarith
    ultimately show False using i by (simp add: mult.commute)
  qed
  have p0: "0 \<le> int i div ?b0" using assms(2) by (simp add: pos_imp_zdiv_nonneg_iff)
  have v: "\<forall>d<2. 0 \<le> ?pos ! d \<and> ?pos ! d < bins c ! d"
    using p0 p1 assms(2) by (simp add: less_Suc_eq numeral_2_eq_2)
  have l: "length fld = nat (stride (bins c) 2)"
    using assms(3) by (simp add: numeral_2_eq_2)
  have "spec_index 2 (bins c) ?pos = int i"
    using div_mult_mod_eq [of "int i" ?b0] by (simp add: spec_index_def numeral_2_eq_2)
  then show ?thesis using get_pos_cell(1) [OF v l] by simp
qed

text \<open>
  Claim C1 (amended).  In the raw modes without the boundary-trim flag the output is one
  sample per cell of the full index space in the order of the buffer, which is the
  dimension-0-fastest order: sample \<open>i\<close> belongs to the tuple \<open>(i mod bins\<^sub>0, i div bins\<^sub>0)\<close>.
  The sample of a cell is \<open>(double) value / max * 255\<close> (raw8, one byte) or \<open>* 65535\<close>
  (raw16, two bytes, the high byte first) converted to the unsigned integer by truncation
  towards zero, which is \<open>value * 255 div max\<close> in exact arithmetic; it is not rounded to
  the nearest integer.  \<open>max\<close> is the largest cell value found by the first pass.
\<close>

theorem raw_output_samples:
  assumes "nat (dims c) \<le> length (bins c)" and "\<forall>d<nat (dims c). 1 \<le> bins c ! d"
    and "length fld = nat (stride (bins c) (nat (dims c)))"
    and "raw8 c \<or> raw16 c" and "\<not> omit_outer_zero c"
  shows "output_stdout fl c s fld cnt = Some (raw_samples fl c (Max (insert 0 (set fld))) fld)
    \<and> (dims c = 2 \<and> i < length fld \<longrightarrow>
         get_pos fld 2 (bins c) [int i mod bins c ! 0, int i div bins c ! 0] = Some (fld ! i))
    \<and> (raw8 c \<and> mx \<noteq> 0 \<and> 0 \<le> trunc (fl (fl (of_int v / of_int mx) * 255))
           \<and> trunc (fl (fl (of_int v / of_int mx) * 255)) \<le> 255 \<longrightarrow>
         raw_sample fl c v mx = Some [Byte (trunc (fl (fl (of_int v / of_int mx) * 255)))])
    \<and> (\<not> raw8 c \<and> mx \<noteq> 0 \<and> 0 \<le> trunc (fl (fl (of_int v / of_int mx) * 65535))
           \<and> trunc (fl (fl (of_int v / of_int mx) * 65535)) \<le> 65535 \<longrightarrow>
         raw_sample fl c v mx
           = Some [Byte (trunc (fl (fl (of_int v / of_int mx) * 65535)) div 256),
                   Byte (trunc (fl (fl (of_int v / of_int mx) * 65535)) mod 256)])
    \<and> (0 \<le> v \<and> v \<le> mx \<and> 0 < mx \<longrightarrow>
         trunc (rat_of_int v / rat_of_int mx * 255) = v * 255 div mx
         \<and> 0 \<le> v * 255 div mx \<and> v * 255 div mx \<le> 255
         \<and> trunc (rat_of_int v / rat_of_int mx * 65535) = v * 65535 div mx
         \<and> 0 \<le> v * 65535 div mx \<and> v * 65535 div mx \<le> 65535)"
proof -
  have a: "output_stdout fl c s fld cnt = Some (raw_samples fl c (Max (insert 0 (set fld))) fld)"
    by (rule output_raw [OF assms])
  have b: "get_pos fld 2 (bins c) [int i mod bins c ! 0, int i div bins c ! 0] = Some (fld ! i)"
    if "dims c = 2" "i < length fld"
  proof -
    have "1 \<le> bins c ! 0" using assms(2) that(1) by simp
    moreover have "length fld = nat (bins c ! 0 * bins c ! 1)"
      using assms(3) that(1) by (simp add: numeral_2_eq_2)
    ultimately show ?thesis using that by (intro cell_of_sample_2d) simp_all
  qed
  have c8: "raw_sample fl c v mx = Some [Byte (trunc (fl (fl (of_int v / of_int mx) * 255)))]"
    if "raw8 c" "mx \<noteq> 0" "0 \<le> trunc (fl (fl (of_int v / of_int mx) * 255))"
      "trunc (fl (fl (of_int v / of_int mx) * 255)) \<le> 255"
    using that by (simp add: raw_sample_def)
  have c16: "raw_sample fl c v mx
           = Some [Byte (trunc (fl (fl (of_int v / of_int mx) * 65535)) div 256),
                   Byte (trunc (fl (fl (of_int v / of_int mx) * 65535)) mod 256)]"
    if "\<not> raw8 c" "mx \<noteq> 0" "0 \<le> trunc (fl (fl (of_int v / of_int mx) * 65535))"
      "trunc (fl (fl (of_int v / of_int mx) * 65535)) \<le> 65535"
    using that assms(4) by (simp add: raw_sample_def Let_def)
  have d: "trunc (rat_of_int v / rat_of_int mx * 255) = v * 255 div mx
         \<and> 0 \<le> v * 255 div mx \<and> v * 255 div mx \<le> 255
         \<and> trunc (rat_of_int v / rat_of_int mx * 65535) = v * 65535 div mx
         \<and> 0 \<le> v * 65535 div mx \<and> v * 65535 div mx \<le> 65535"
    if "0 \<le> v" "v \<le> mx" "0 < mx"
    using trunc_exact_quotient [OF that, of 255] trunc_exact_quotient [OF that, of 65535]
    by simp
  show ?thesis using a b c8 c16 d by blast
qed

theorem raw_output_samples_witness:
  "output_stdout (\<lambda>x. x) example_raw seen0 [1, 4, 0, 0] 5
     = Some (Return [Byte 63, Byte 255, Byte 0, Byte 0])
   \<and> get_pos [1, 4, 0, 0] 2 (bins example_raw) [1, 0] = Some 4
   \<and> raw_sample (\<lambda>x. x) example_raw 1 4 = Some [Byte 63]
   \<and> raw_sample (\<lambda>x. x) (example_raw\<lparr>raw8 := False, raw16 := True\<rparr>) 1 4
       = Some [Byte 63, Byte 255]
   \<and> trunc (rat_of_int 1 / rat_of_int 4 * 255) = 63"
proof -
  let ?c16 = "example_raw\<lparr>raw8 := False, raw16 := True\<rparr>"
  have h1: "nat (dims example_raw) \<le> length (bins example_raw)"
    "nat (dims ?c16) \<le> length (bins ?c16)"
    by (simp_all add: example_raw_def)
  have h2: "\<forall>d<nat (dims example_raw). 1 \<le> bins example_raw ! d"
    "\<forall>d<nat (dims ?c16). 1 \<le> bins ?c16 ! d"
    by (simp_all add: example_raw_def less_Suc_eq numeral_2_eq_2)
  have h3: "length [1, 4, 0, 0 :: int] = nat (stride (bins example_raw) (nat (dims example_raw)))"
    "length [1, 4, 0, 0 :: int] = nat (stride (bins ?c16) (nat (dims ?c16)))"
    by (simp_all add: example_raw_def numeral_2_eq_2)
  have h4: "raw8 example_raw \<or> raw16 example_raw" "\<not> omit_outer_zero example_raw"
    "raw8 ?c16 \<or> raw16 ?c16" "\<not> omit_outer_zero ?c16"
    by (simp_all add: example_raw_def)
  have r: "raw_samples (\<lambda>x. x) example_raw 4 [1, 4, 0, 0]
      = Return [Byte 63, Byte 255, Byte 0, Byte 0]"
    by (simp add: raw_sample_def trunc_def example_raw_def)
  have t: "trunc ((1::rat) / 4 * 255) = 63" "trunc ((1::rat) / 4 * 65535) = 16383"
    by (simp_all add: trunc_def)
  have d: "dims example_raw = 2" "raw8 example_raw" "\<not> raw8 ?c16"
    by (simp_all add: example_raw_def)
  note a = raw_output_samples [OF h1(1) h2(1) h3(1) h4(1,2), of "\<lambda>x. x" seen0 5 1 4 1]
  note b = raw_output_samples [OF h1(2) h2(2) h3(2) h4(3,4), of "\<lambda>x. x" seen0 5 1 4 1]
  have mx: "Max (insert 0 (set [1, 4, 0, 0 :: int])) = 4" by simp
  have b0: "bins example_raw ! 0 = 2" by (simp add: example_raw_def)
  have c1: "output_stdout (\<lambda>x. x) example_raw seen0 [1, 4, 0, 0] 5
     = Some (Return [Byte 63, Byte 255, Byte 0, Byte 0])"
    using a [THEN conjunct1] r unfolding mx by simp
  have c2: "get_pos [1, 4, 0, 0] 2 (bins example_raw) [1, 0] = Some 4"
    using a [THEN conjunct2, THEN conjunct1] d(1) unfolding b0 by simp
  have c3: "raw_sample (\<lambda>x. x) example_raw 1 4 = Some [Byte 63]"
    using a [THEN conjunct2, THEN conjunct2, THEN conjunct1] d(2) t by simp
  have c4: "raw_sample (\<lambda>x. x) ?c16 1 4 = Some [Byte 63, Byte 255]"
    using b [THEN conjunct2, THEN conjunct2, THEN conjunct2, THEN conjunct1] d(3) t by simp
  have c5: "trunc (rat_of_int 1 / rat_of_int 4 * 255) = 63"
    using a [THEN conjunct2, THEN conjunct2, THEN conjunct2, THEN conjunct2] by simp
  show ?thesis using c1 c2 c3 c4 c5 by (intro conjI)
qed

lemma parse_raw8:
  "parseOptions [Raw8, OptR, OptD 2, OptL 0, OptH 2, OptW 2, OptL 0, OptH 2, OptW 2] False globals0
   = Some (0, globals0\<lparr>dims := 2, low := (low globals0)[0 := 0, 1 := 0],
        hi := (hi globals0)[0 := 2, 1 := 2], bins := (bins globals0)[0 := 2, 1 := 2],
        relative := True, raw8 := True\<rparr>)"
  by (simp add: parseOptions_def globals0_def MAX_DIM_def range_error_def
      numeral_2_eq_2 replicate_numeral)

lemma configure_raw8:
  "configure b64 [Raw8, OptR, OptD 2, OptL 0, OptH 2, OptW 2, OptL 0, OptH 2, OptW 2]
   = globals0\<lparr>dims := 2, low := (low globals0)[0 := 0, 1 := 0],
        hi := (hi globals0)[0 := 2, 1 := 2], bins := (bins globals0)[0 := 2, 1 := 2],
        relative := True, raw8 := True, bsize := (bsize globals0)[0 := 1, 1 := 1]\<rparr>"
  by (simp add: configure_def parse_raw8)
    (simp add: compute_sizes_def globals0_def MAX_DIM_def b64_vals
      numeral_2_eq_2 replicate_numeral)

text \<open>The run \<open>--raw8 -r -d 2 -l 0 -h 2 -w 2 -l 0 -h 2 -w 2\<close> on one tuple in cell
  \<open>(0,0)\<close> and four in cell \<open>(1,0)\<close>: the first byte is 63, where rounding \<open>63.75\<close>
  gives 64.\<close>

theorem raw8_truncates_counterexample:
  "main b64 [Raw8, OptR, OptD 2, OptL 0, OptH 2, OptW 2, OptL 0, OptH 2, OptW 2] False
     [Data [1 / 2, 1 / 2], Data [3 / 2, 1 / 2], Data [3 / 2, 1 / 2], Data [3 / 2, 1 / 2],
      Data [3 / 2, 1 / 2]]
     = Some (Return [Byte 63, Byte 255, Byte 0, Byte 0])
   \<and> map (\<lambda>v. Byte (spec_raw8 v 4)) [1, 4, 0, 0] = [Byte 64, Byte 255, Byte 0, Byte 0]"
proof -
  let ?opts = "[Raw8, OptR, OptD 2, OptL 0, OptH 2, OptW 2, OptL 0, OptH 2, OptW 2]"
  let ?c = "configure b64 ?opts"
  let ?ls = "[Data [1 / 2, 1 / 2], Data [3 / 2, 1 / 2], Data [3 / 2, 1 / 2], Data [3 / 2, 1 / 2],
      Data [3 / 2, 1 / 2]]"
  let ?st = "\<lparr>field = [1, 4, 0, 0],
      occupied = update_seen 2 [1, 0] (update_seen 2 [1, 0] (update_seen 2 [1, 0]
        (update_seen 2 [1, 0] (update_seen 2 [0, 0] (init_seen ?c seen0))))),
      count = 5, oor = 0\<rparr>"
  have i: "import b64 ?c ?ls (initial_state ?c) = Return ?st"
    unfolding configure_raw8
    by (simp add: eval_defs globals0_def b64_vals numeral_2_eq_2)
  have h1: "nat (dims ?c) \<le> length (bins ?c)"
    unfolding configure_raw8 by (simp add: globals0_def MAX_DIM_def)
  have h2: "\<forall>d<nat (dims ?c). 1 \<le> bins ?c ! d"
    unfolding configure_raw8
    by (simp add: globals0_def MAX_DIM_def less_Suc_eq numeral_2_eq_2 replicate_numeral)
  have h3: "length [1, 4, 0, 0 :: int] = nat (stride (bins ?c) (nat (dims ?c)))"
    unfolding configure_raw8
    by (simp add: globals0_def MAX_DIM_def numeral_2_eq_2 replicate_numeral)
  have h4: "raw8 ?c \<or> raw16 ?c" "\<not> omit_outer_zero ?c"
    unfolding configure_raw8 by (simp_all add: globals0_def)
  have r: "raw_samples b64 ?c 4 [1, 4, 0, 0] = Return [Byte 63, Byte 255, Byte 0, Byte 0]"
    unfolding configure_raw8
    by (simp add: raw_sample_def trunc_def globals0_def b64_vals)
  have o: "output_stdout b64 ?c (occupied ?st) [1, 4, 0, 0] 5
      = Some (Return [Byte 63, Byte 255, Byte 0, Byte 0])"
    using output_raw [OF h1 h2 h3 h4, of b64 "occupied ?st" 5] r by simp
  have m: "main b64 ?opts False ?ls = Some (Return [Byte 63, Byte 255, Byte 0, Byte 0])"
    using i o by (simp add: main_def parse_raw8 configure_def)
  have s: "map (\<lambda>v. Byte (spec_raw8 v 4)) [1, 4, 0, 0] = [Byte 64, Byte 255, Byte 0, Byte 0]"
    by (simp add: spec_raw8_def round_def)
  show ?thesis using m s by (intro conjI)
qed

subsection \<open>The padding of the occupied range\<close>

lemma fixup_prefix:
  fixes c :: config and s :: seen
  defines "F \<equiv> (\<lambda>dim s.
        let s1 = (if min_bin_seen s ! dim > 0
                  then s\<lparr>min_bin_seen := (min_bin_seen s)[dim := min_bin_seen s ! dim - 1]\<rparr>
                  else s)
        in (if max_bin_seen s1 ! dim < bins c ! dim - 1
            then s1\<lparr>max_bin_seen := (max_bin_seen s1)[dim := max_bin_seen s1 ! dim + 1]\<rparr>
            else s1))"
  assumes "n \<le> length (min_bin_seen s)" "n \<le> length (max_bin_seen s)"
  shows "length (min_bin_seen (fold F [0..<n] s)) = length (min_bin_seen s)
    \<and> length (max_bin_seen (fold F [0..<n] s)) = length (max_bin_seen s)
    \<and> (\<forall>d. min_bin_seen (fold F [0..<n] s) ! d
          = (if d < n \<and> 0 < min_bin_seen s ! d then min_bin_seen s ! d - 1
             else min_bin_seen s ! d))
    \<and> (\<forall>d. max_bin_seen (fold F [0..<n] s) ! d
          = (if d < n \<and> max_bin_seen s ! d < bins c ! d - 1 then max_bin_seen s ! d + 1
             else max_bin_seen s ! d))"
  using assms(2,3)
proof (induction n)
  case 0
  show ?case by simp
next
  case (Suc n)
  define r where "r = fold F [0..<n] s"
  have ih: "length (min_bin_seen r) = length (min_bin_seen s)"
    "length (max_bin_seen r) = length (max_bin_seen s)"
    "\<And>d. min_bin_seen r ! d
          = (if d < n \<and> 0 < min_bin_seen s ! d then min_bin_seen s ! d - 1
             else min_bin_seen s ! d)"
    "\<And>d. max_bin_seen r ! d
          = (if d < n \<and> max_bin_seen s ! d < bins c ! d - 1 then max_bin_seen s ! d + 1
             else max_bin_seen s ! d)"
    using Suc.IH Suc.prems unfolding r_def by simp_all
  have n: "n < length (min_bin_seen r)" "n < length (max_bin_seen r)"
    using Suc.prems ih(1,2) by simp_all
  have step: "fold F [0..<Suc n] s = F n r" by (simp add: r_def)
  show ?case
    unfolding step using n ih by (auto simp: F_def Let_def nth_list_update less_Suc_eq)
qed

lemma fixup_nth:
  assumes "d < nat (dims c)" "nat (dims c) \<le> length (min_bin_seen s)"
    "nat (dims c) \<le> length (max_bin_seen s)"
  shows "min_bin_seen (fixup c s) ! d
      = (if 0 < min_bin_seen s ! d then min_bin_seen s ! d - 1 else min_bin_seen s ! d)"
    and "max_bin_seen (fixup c s) ! d
      = (if max_bin_seen s ! d < bins c ! d - 1 then max_bin_seen s ! d + 1
         else max_bin_seen s ! d)"
  using fixup_prefix [OF assms(2,3), of c] assms(1) unfolding fixup_def by simp_all

lemma parse_trim:
  "parseOptions [OptO, OptD 1, OptL 0, OptH 10, OptW 10] False globals0
   = Some (0, globals0\<lparr>omit_outer_zero := True, dims := 1, low := (low globals0)[0 := 0],
        hi := (hi globals0)[0 := 10], bins := (bins globals0)[0 := 10]\<rparr>)"
  by (simp add: parseOptions_def globals0_def MAX_DIM_def range_error_def)

lemma configure_trim:
  "configure b64 [OptO, OptD 1, OptL 0, OptH 10, OptW 10]
   = globals0\<lparr>omit_outer_zero := True, dims := 1, low := (low globals0)[0 := 0],
        hi := (hi globals0)[0 := 10], bins := (bins globals0)[0 := 10],
        bsize := (bsize globals0)[0 := 1]\<rparr>"
  by (simp add: configure_def parse_trim)
    (simp add: compute_sizes_def globals0_def MAX_DIM_def b64_vals)

lemma trim_scenario:
  "main b64 [OptO, OptD 1, OptL 0, OptH 10, OptW 10] False [Data [15 / 2]]
     = Some (Return [Line [13 / 2] (Count 0), Line [15 / 2] (Count 1), Line [17 / 2] (Count 0),
          Blank])
   \<and> min_bin_seen (fixup (configure b64 [OptO, OptD 1, OptL 0, OptH 10, OptW 10])
        (update_seen 1 [7] (init_seen (configure b64 [OptO, OptD 1, OptL 0, OptH 10, OptW 10]) seen0))) ! 0 = 6
   \<and> max_bin_seen (fixup (configure b64 [OptO, OptD 1, OptL 0, OptH 10, OptW 10])
        (update_seen 1 [7] (init_seen (configure b64 [OptO, OptD 1, OptL 0, OptH 10, OptW 10]) seen0))) ! 0 = 8"
proof -
  let ?opts = "[OptO, OptD 1, OptL 0, OptH 10, OptW 10]"
  let ?c = "configure b64 ?opts"
  let ?fld = "[0, 0, 0, 0, 0, 0, 0, 1, 0, 0 :: int]"
  let ?st = "\<lparr>field = ?fld, occupied = update_seen 1 [7] (init_seen ?c seen0),
      count = 1, oor = 0\<rparr>"
  define s' where "s' = fixup ?c (update_seen 1 [7] (init_seen ?c seen0))"
  have i: "import b64 ?c [Data [15 / 2]] (initial_state ?c) = Return ?st"
    unfolding configure_trim
    by (simp add: eval_defs globals0_def b64_vals)
  have mn: "min_bin_seen (fixup ?c (update_seen 1 [7] (init_seen ?c seen0))) ! 0 = 6"
    unfolding configure_trim
    by (simp add: fixup_def seen_defs globals0_def MAX_DIM_def INT_MAX_def replicate_numeral Let_def)
  have mx: "max_bin_seen (fixup ?c (update_seen 1 [7] (init_seen ?c seen0))) ! 0 = 8"
    unfolding configure_trim
    by (simp add: fixup_def seen_defs globals0_def MAX_DIM_def INT_MAX_def replicate_numeral Let_def)
  have s: "min_bin_seen s' ! 0 = 6" "max_bin_seen s' ! 0 = 8"
    using mn mx by (simp_all add: s'_def)
  have sp: "start_pos ?c s' = [6]"
    unfolding configure_trim using s by (simp add: start_pos_def globals0_def)
  have t: "text_loop b64 ?c s' ?fld 1 [6]
      = Some (Return [Line [13 / 2] (Count 0), Line [15 / 2] (Count 1), Line [17 / 2] (Count 0),
          Blank])"
    unfolding configure_trim using s
    by (simp add: text_loop.simps text_line_def midpoint_def get_pos_def index_loop_def
        globals0_def MAX_DIM_def replicate_numeral Let_def b64_vals)
  have o: "output_stdout b64 ?c (occupied ?st) ?fld 1
      = Some (Return [Line [13 / 2] (Count 0), Line [15 / 2] (Count 1), Line [17 / 2] (Count 0),
          Blank])"
    using t sp unfolding s'_def
    by (simp add: output_stdout_def Let_def configure_trim globals0_def)
  have "main b64 ?opts False [Data [15 / 2]]
      = Some (Return [Line [13 / 2] (Count 0), Line [15 / 2] (Count 1), Line [17 / 2] (Count 0),
          Blank])"
    using i o by (simp add: main_def parse_trim configure_def)
  then show ?thesis using mn mx by (intro conjI)
qed

text \<open>
  Claim C9.  The padding step of \<open>output\<close> decrements \<open>min_bin_seen[d]\<close> by 1 iff it is
  positive and increments \<open>max_bin_seen[d]\<close> by 1 iff it is below \<open>bins[d] - 1\<close>, for
  every dimension.  With \<open>-o -d 1 -l 0 -h 10 -w 10\<close> and one tuple in bin 7 the window
  becomes \<open>[6, 8]\<close> and the output has the three lines of the bins 6, 7 and 8.
\<close>

theorem padding_step:
  "(d < nat (dims c) \<and> nat (dims c) \<le> length (min_bin_seen s)
      \<and> nat (dims c) \<le> length (max_bin_seen s) \<longrightarrow>
      min_bin_seen (fixup c s) ! d
        = (if 0 < min_bin_seen s ! d then min_bin_seen s ! d - 1 else min_bin_seen s ! d)
      \<and> max_bin_seen (fixup c s) ! d
        = (if max_bin_seen s ! d < bins c ! d - 1 then max_bin_seen s ! d + 1
           else max_bin_seen s ! d))
   \<and> min_bin_seen (fixup (configure b64 [OptO, OptD 1, OptL 0, OptH 10, OptW 10])
        (update_seen 1 [7]
          (init_seen (configure b64 [OptO, OptD 1, OptL 0, OptH 10, OptW 10]) seen0))) ! 0 = 6
   \<and> max_bin_seen (fixup (configure b64 [OptO, OptD 1, OptL 0, OptH 10, OptW 10])
        (update_seen 1 [7]
          (init_seen (configure b64 [OptO, OptD 1, OptL 0, OptH 10, OptW 10]) seen0))) ! 0 = 8
   \<and> main b64 [OptO, OptD 1, OptL 0, OptH 10, OptW 10] False [Data [15 / 2]]
       = Some (Return [Line [13 / 2] (Count 0), Line [15 / 2] (Count 1),
            Line [17 / 2] (Count 0), Blank])"
proof -
  have a: "d < nat (dims c) \<and> nat (dims c) \<le> length (min_bin_seen s)
      \<and> nat (dims c) \<le> length (max_bin_seen s) \<longrightarrow>
      min_bin_seen (fixup c s) ! d
        = (if 0 < min_bin_seen s ! d then min_bin_seen s ! d - 1 else min_bin_seen s ! d)
      \<and> max_bin_seen (fixup c s) ! d
        = (if max_bin_seen s ! d < bins c ! d - 1 then max_bin_seen s ! d + 1
           else max_bin_seen s ! d)"
    using fixup_nth [of d c s] by simp
  show ?thesis
    using a trim_scenario by (intro conjI) simp_all
qed

theorem padding_step_witness:
  "min_bin_seen (fixup example_trim \<lparr>min_bin_seen = [7], max_bin_seen = [7]\<rparr>) ! 0 = 6
   \<and> max_bin_seen (fixup example_trim \<lparr>min_bin_seen = [7], max_bin_seen = [7]\<rparr>) ! 0 = 8
   \<and> min_bin_seen (fixup example_trim \<lparr>min_bin_seen = [0], max_bin_seen = [9]\<rparr>) ! 0 = 0
   \<and> max_bin_seen (fixup example_trim \<lparr>min_bin_seen = [0], max_bin_seen = [9]\<rparr>) ! 0 = 9"
  using padding_step [of 0 example_trim "\<lparr>min_bin_seen = [7], max_bin_seen = [7]\<rparr>"]
    padding_step [of 0 example_trim "\<lparr>min_bin_seen = [0], max_bin_seen = [9]\<rparr>"]
  by (simp add: example_trim_def)

subsection \<open>The spacer lines of the text mode\<close>

lemma fst_case_triple:
  "fst (case x of (k, pos', sp) \<Rightarrow> (k, pos', f sp)) = fst x"
  "snd (snd (case x of (k, pos', sp) \<Rightarrow> (k, pos', f sp))) = f (snd (snd x))"
  by (cases x; simp)+

lemma text_adv_fst_le: "fst (text_adv c s k pos) \<le> k"
proof (induction k arbitrary: pos)
  case 0
  show ?case by simp
next
  case (Suc k)
  show ?case using Suc [THEN le_SucI] by (simp add: Let_def fst_case_triple)
qed

lemma text_adv_no_spacer:
  "int k \<le> dims c - 1 \<Longrightarrow> snd (snd (text_adv c s k pos)) = []"
proof (induction k arbitrary: pos)
  case 0
  show ?case by simp
next
  case (Suc k)
  have "int k \<noteq> dims c - 1" "int k \<le> dims c - 1" using Suc.prems by simp_all
  then show ?case using Suc.IH by (simp add: Let_def fst_case_triple)
qed

text \<open>
  Claim C6 (amended).  In the text mode, for every dimensionality, a step prints the blank
  separator line exactly when the index of the last dimension \<open>dims - 1\<close>, the one that
  runs fastest, wraps: after each complete run over the last dimension.
\<close>

theorem blank_line_when_last_dimension_wraps:
  assumes "length pos = nat (dims c)" and "1 \<le> dims c"
  shows "case text_adv c s (nat (dims c)) pos of
           (k, pos', spacers) \<Rightarrow>
             spacers = (if last_wraps c s pos then [Blank] else [])
             \<and> (last_wraps c s pos \<longleftrightarrow> k < nat (dims c))"
proof -
  obtain m where m: "nat (dims c) = Suc m" using assms(2) by (cases "nat (dims c)") simp_all
  then have dm: "int m = dims c - 1" by linarith
  have p: "(pos[m := pos ! m + 1]) ! m = pos ! m + 1" using assms(1) m by simp
  have lw: "last_wraps c s pos
      \<longleftrightarrow> bins c ! m \<le> pos ! m + 1 \<or> (omit_outer_zero c \<and> max_bin_seen s ! m < pos ! m + 1)"
    by (simp add: last_wraps_def m)
  show ?thesis
  proof (cases "last_wraps c s pos")
    case True
    let ?p2 = "pos[m := pos ! m + 1, m := (if omit_outer_zero c then min_bin_seen s ! m else 0)]"
    obtain k pos' sp where r: "text_adv c s m ?p2 = (k, pos', sp)"
      by (cases "text_adv c s m ?p2")
    have "sp = []" using text_adv_no_spacer [of m c s ?p2] dm r by simp
    moreover have "k \<le> m" using text_adv_fst_le [of c s m ?p2] r by simp
    ultimately show ?thesis using True lw p r dm unfolding m
      by (auto simp: Let_def)
  next
    case False
    then show ?thesis using lw p unfolding m by (auto simp: Let_def)
  qed
qed

theorem blank_line_when_last_dimension_wraps_witness:
  "text_adv example_2d \<lparr>min_bin_seen = [0, 0], max_bin_seen = [1, 1]\<rparr> 2 [0, 1]
     = (1, [1, 0], [Blank])
   \<and> last_wraps example_2d \<lparr>min_bin_seen = [0, 0], max_bin_seen = [1, 1]\<rparr> [0, 1]
   \<and> text_adv example_2d \<lparr>min_bin_seen = [0, 0], max_bin_seen = [1, 1]\<rparr> 2 [0, 0]
     = (2, [0, 1], [])
   \<and> \<not> last_wraps example_2d \<lparr>min_bin_seen = [0, 0], max_bin_seen = [1, 1]\<rparr> [0, 0]"
proof -
  let ?s = "\<lparr>min_bin_seen = [0, 0], max_bin_seen = [1, 1]\<rparr>"
  have h: "length [0, 1 :: int] = nat (dims example_2d)" "length [0, 0 :: int] = nat (dims example_2d)"
    "1 \<le> dims example_2d"
    by (simp_all add: example_2d_def)
  have e: "text_adv example_2d ?s 2 [0, 1] = (1, [1, 0], [Blank])"
    "text_adv example_2d ?s 2 [0, 0] = (2, [0, 1], [])"
    by (simp_all add: example_2d_def numeral_2_eq_2)
  have d: "nat (dims example_2d) = 2" by (simp add: example_2d_def)
  note a = blank_line_when_last_dimension_wraps [OF h(1) h(3), of ?s]
  note b = blank_line_when_last_dimension_wraps [OF h(2) h(3), of ?s]
  have "last_wraps example_2d ?s [0, 1]" using a unfolding d e by simp
  moreover have "\<not> last_wraps example_2d ?s [0, 0]" using b unfolding d e by simp
  ultimately show ?thesis using e by simp
qed

lemma parse_2d:
  "parseOptions [OptD 2, OptL 0, OptH 2, OptW 2, OptL 0, OptH 2, OptW 2] False globals0
   = Some (0, globals0\<lparr>dims := 2, low := (low globals0)[0 := 0, 1 := 0],
        hi := (hi globals0)[0 := 2, 1 := 2], bins := (bins globals0)[0 := 2, 1 := 2]\<rparr>)"
  by (simp add: parseOptions_def globals0_def MAX_DIM_def range_error_def
      numeral_2_eq_2 replicate_numeral)

lemma configure_2d:
  "configure b64 [OptD 2, OptL 0, OptH 2, OptW 2, OptL 0, OptH 2, OptW 2]
   = globals0\<lparr>dims := 2, low := (low globals0)[0 := 0, 1 := 0],
        hi := (hi globals0)[0 := 2, 1 := 2], bins := (bins globals0)[0 := 2, 1 := 2],
        bsize := (bsize globals0)[0 := 1, 1 := 1]\<rparr>"
  by (simp add: configure_def parse_2d)
    (simp add: compute_sizes_def globals0_def MAX_DIM_def b64_vals
      numeral_2_eq_2 replicate_numeral)

text \<open>With two dimensions of two bins each, a blank line follows the second text line,
  where dimension 0 has moved from 0 to 1 and has not wrapped.\<close>

theorem blank_line_counterexample:
  "main b64 [OptD 2, OptL 0, OptH 2, OptW 2, OptL 0, OptH 2, OptW 2] False
     [Data [1 / 2, 1 / 2], Data [3 / 2, 3 / 2]]
     = Some (Return [Line [1 / 2, 1 / 2] (Count 1), Line [1 / 2, 3 / 2] (Count 0), Blank,
          Line [3 / 2, 1 / 2] (Count 0), Line [3 / 2, 3 / 2] (Count 1), Blank])
   \<and> text_adv (configure b64 [OptD 2, OptL 0, OptH 2, OptW 2, OptL 0, OptH 2, OptW 2]) seen0
         2 [0, 1] = (1, [1, 0], [Blank])"
proof -
  let ?opts = "[OptD 2, OptL 0, OptH 2, OptW 2, OptL 0, OptH 2, OptW 2]"
  let ?c = "configure b64 ?opts"
  let ?ls = "[Data [1 / 2, 1 / 2], Data [3 / 2, 3 / 2]]"
  let ?fld = "[1, 0, 0, 1 :: int]"
  let ?s = "update_seen 2 [1, 1] (update_seen 2 [0, 0] (init_seen ?c seen0))"
  let ?st = "\<lparr>field = ?fld, occupied = ?s, count = 2, oor = 0\<rparr>"
  let ?out = "[Line [1 / 2, 1 / 2] (Count 1), Line [1 / 2, 3 / 2] (Count 0), Blank,
          Line [3 / 2, 1 / 2] (Count 0), Line [3 / 2, 3 / 2] (Count 1), Blank]"
  define s' where "s' = fixup ?c ?s"
  have i: "import b64 ?c ?ls (initial_state ?c) = Return ?st"
    unfolding configure_2d
    by (simp add: eval_defs globals0_def b64_vals numeral_2_eq_2)
  have sp: "start_pos ?c s' = [0, 0]"
    unfolding configure_2d by (simp add: start_pos_def globals0_def numeral_2_eq_2)
  have t: "text_loop b64 ?c s' ?fld 2 [0, 0] = Some (Return ?out)"
    unfolding configure_2d
    by (simp add: text_loop.simps text_line_def midpoint_def get_pos_def index_loop_def
        globals0_def MAX_DIM_def replicate_numeral Let_def b64_vals
        numeral_2_eq_2)
  have o: "output_stdout b64 ?c (occupied ?st) ?fld 2 = Some (Return ?out)"
    using t sp unfolding s'_def
    by (simp add: output_stdout_def Let_def configure_2d globals0_def)
  have m: "main b64 ?opts False ?ls = Some (Return ?out)"
    using i o by (simp add: main_def parse_2d configure_def)
  have a: "text_adv ?c seen0 2 [0, 1] = (1, [1, 0], [Blank])"
    unfolding configure_2d
    by (simp add: globals0_def MAX_DIM_def replicate_numeral numeral_2_eq_2)
  show ?thesis using m a by (intro conjI)
qed

subsection \<open>Configuration errors\<close>

lemma range_error_iff:
  "range_error c = (\<exists>d<nat (dims c). hi c ! d \<le> low c ! d \<or> bins c ! d < 1)"
  by (auto simp: range_error_def list_ex_iff)

lemma parseOptions_status:
  assumes "opt_loop opts 0 globals0 = Some (b, c)"
  shows "parseOptions opts extra globals0
     = Some (if b \<or> extra \<or> dims c < 1 \<or> int MAX_DIM \<le> dims c
               \<or> ((raw8 c \<or> raw16 c) \<and> (dims c \<noteq> 2 \<or> \<not> relative c))
               \<or> (raw8 c \<and> raw16 c) \<or> range_error c
             then 1 else 0, c)"
proof (cases b)
  case True
  then show ?thesis using assms by (simp add: parseOptions_def)
next
  case False
  have "parseOptions opts extra globals0
     = Some (if extra then 1
                else if dims c < 1 \<or> dims c \<ge> int MAX_DIM then 1
                else if (raw8 c \<or> raw16 c) \<and> (dims c \<noteq> 2 \<or> \<not> relative c) then 1
                else if raw8 c \<and> raw16 c then 1
                else if range_error c then 1
                else 0, c)"
    using assms False by (simp add: parseOptions_def)
  also have "\<dots> = Some (if b \<or> extra \<or> dims c < 1 \<or> int MAX_DIM \<le> dims c
               \<or> ((raw8 c \<or> raw16 c) \<and> (dims c \<noteq> 2 \<or> \<not> relative c))
               \<or> (raw8 c \<and> raw16 c) \<or> range_error c
             then 1 else 0, c)"
    using False by (simp only: if_True if_False simp_thms split: if_split) blast
  finally show ?thesis .
qed

lemma config_errors_exit:
  assumes "opt_loop opts 0 globals0 = Some (b, c)"
    and "b \<or> extra \<or> dims c < 1 \<or> int MAX_DIM \<le> dims c
      \<or> ((raw8 c \<or> raw16 c) \<and> (dims c \<noteq> 2 \<or> \<not> relative c))
      \<or> (raw8 c \<and> raw16 c)
      \<or> (\<exists>d<nat (dims c). hi c ! d \<le> low c ! d \<or> bins c ! d < 1)"
  shows "main fl opts extra input = Some (Exit 1)"
proof -
  have "parseOptions opts extra globals0 = Some (1, c)"
    unfolding parseOptions_status [OF assms(1)] range_error_iff using assms(2)
    by (simp only: if_True)
  then show ?thesis by (simp add: main_def)
qed

lemma parse_raw_trim:
  "parseOptions [Raw8, OptR, OptO, OptD 2, OptL 0, OptH 3, OptW 3, OptL 0, OptH 3, OptW 3]
     False globals0
   = Some (0, globals0\<lparr>dims := 2, low := (low globals0)[0 := 0, 1 := 0],
        hi := (hi globals0)[0 := 3, 1 := 3], bins := (bins globals0)[0 := 3, 1 := 3],
        relative := True, omit_outer_zero := True, raw8 := True\<rparr>)"
  by (simp add: parseOptions_def globals0_def MAX_DIM_def range_error_def
      numeral_2_eq_2 replicate_numeral)

lemma configure_raw_trim:
  "configure b64 [Raw8, OptR, OptO, OptD 2, OptL 0, OptH 3, OptW 3, OptL 0, OptH 3, OptW 3]
   = globals0\<lparr>dims := 2, low := (low globals0)[0 := 0, 1 := 0],
        hi := (hi globals0)[0 := 3, 1 := 3], bins := (bins globals0)[0 := 3, 1 := 3],
        relative := True, omit_outer_zero := True, raw8 := True,
        bsize := (bsize globals0)[0 := 1, 1 := 1]\<rparr>"
  by (simp add: configure_def parse_raw_trim)
    (simp add: compute_sizes_def globals0_def MAX_DIM_def b64_vals
      numeral_2_eq_2 replicate_numeral)

text \<open>
  Claim C2.  A bad dimension count, bounds with \<open>low >= hi\<close>, a bin count below 1, both
  raw modes together, and a raw mode without \<open>-r\<close> or without \<open>-d 2\<close> end the run with
  status 1 before \<open>import\<close> is called, whatever the input (\<open>config_errors_exit\<close>).
  \<open>parseOptions\<close> has no test for \<open>-o\<close> together with a raw mode, the combination that
  the usage text calls unsupported: \<open>--raw8 -r -o -d 2 -l 0 -h 3 -w 3 -l 0 -h 3 -w 3\<close> is
  accepted, the input is read, and the run with one tuple in the cell \<open>(2, 2)\<close> writes five
  bytes, the samples from the cell \<open>(1, 1)\<close> on, of an image of nine cells.
\<close>

theorem raw_with_trim_flag_accepted:
  "raw8 (configure b64 [Raw8, OptR, OptO, OptD 2, OptL 0, OptH 3, OptW 3, OptL 0, OptH 3, OptW 3])
   \<and> omit_outer_zero
       (configure b64 [Raw8, OptR, OptO, OptD 2, OptL 0, OptH 3, OptW 3, OptL 0, OptH 3, OptW 3])
   \<and> main b64 [Raw8, OptR, OptO, OptD 2, OptL 0, OptH 3, OptW 3, OptL 0, OptH 3, OptW 3] False
       [Data [5 / 2, 5 / 2]]
     = Some (Return [Byte 0, Byte 0, Byte 0, Byte 0, Byte 255])"
proof -
  let ?opts = "[Raw8, OptR, OptO, OptD 2, OptL 0, OptH 3, OptW 3, OptL 0, OptH 3, OptW 3]"
  let ?c = "configure b64 ?opts"
  let ?fld = "[0, 0, 0, 0, 0, 0, 0, 0, 1 :: int]"
  let ?st = "\<lparr>field = ?fld, occupied = update_seen 2 [2, 2] (init_seen ?c seen0),
      count = 1, oor = 0\<rparr>"
  define s' where "s' = fixup ?c (update_seen 2 [2, 2] (init_seen ?c seen0))"
  have f: "raw8 ?c" "omit_outer_zero ?c"
    unfolding configure_raw_trim by (simp_all add: globals0_def)
  have i: "import b64 ?c [Data [5 / 2, 5 / 2]] (initial_state ?c) = Return ?st"
    unfolding configure_raw_trim
    by (simp add: eval_defs globals0_def b64_vals numeral_2_eq_2)
  have h1: "nat (dims ?c) \<le> length (bins ?c)"
    unfolding configure_raw_trim by (simp add: globals0_def MAX_DIM_def)
  have h2: "\<forall>d<nat (dims ?c). 1 \<le> bins ?c ! d"
    unfolding configure_raw_trim
    by (simp add: globals0_def MAX_DIM_def less_Suc_eq numeral_2_eq_2 replicate_numeral)
  have h3: "length ?fld = nat (stride (bins ?c) (nat (dims ?c)))"
    unfolding configure_raw_trim
    by (simp add: globals0_def MAX_DIM_def numeral_2_eq_2 replicate_numeral)
  have mx: "max_loop ?c ?fld 0 (replicate (nat (dims ?c)) 0) = Some (Return 1)"
    using max_loop_all [OF h1 h2 h3] by simp
  have s: "min_bin_seen s' ! 0 = 1" "min_bin_seen s' ! Suc 0 = 1"
    unfolding s'_def configure_raw_trim
    by (simp_all add: fixup_def seen_defs globals0_def MAX_DIM_def INT_MAX_def
        replicate_numeral Let_def numeral_2_eq_2)
  have sp: "start_pos ?c s' = [1, 1]"
    unfolding configure_raw_trim using s by (simp add: start_pos_def globals0_def numeral_2_eq_2)
  have l: "length [1, 1 :: int] = nat (dims ?c)"
    unfolding configure_raw_trim by (simp add: globals0_def)
  have v: "\<forall>d<nat (dims ?c). 0 \<le> [1, 1 :: int] ! d \<and> [1, 1] ! d < bins ?c ! d"
    unfolding configure_raw_trim
    by (simp add: globals0_def MAX_DIM_def less_Suc_eq numeral_2_eq_2 replicate_numeral)
  have ix: "spec_index (nat (dims ?c)) (bins ?c) [1, 1] = 4"
    unfolding configure_raw_trim
    by (simp add: spec_index_def globals0_def MAX_DIM_def numeral_2_eq_2 replicate_numeral)
  have rs: "raw_samples b64 ?c 1 [0, 0, 0, 0, 1]
      = Return [Byte 0, Byte 0, Byte 0, Byte 0, Byte 255]"
    unfolding configure_raw_trim
    by (simp add: raw_sample_def trunc_def globals0_def b64_vals)
  have r: "raw_loop b64 ?c ?fld 1 [1, 1] = Some (Return [Byte 0, Byte 0, Byte 0, Byte 0, Byte 255])"
    using raw_loop_from [OF h1 h3 l v, of b64 1] rs by (simp add: ix)
  have o: "output_stdout b64 ?c (occupied ?st) ?fld 1
      = Some (Return [Byte 0, Byte 0, Byte 0, Byte 0, Byte 255])"
    using mx r sp f(1) unfolding s'_def by (simp add: output_stdout_def Let_def)
  have m: "main b64 ?opts False [Data [5 / 2, 5 / 2]]
      = Some (Return [Byte 0, Byte 0, Byte 0, Byte 0, Byte 255])"
    using i o by (simp add: main_def parse_raw_trim configure_def)
  show ?thesis using f m by (intro conjI)
qed

subsection \<open>The text output\<close>




lemma bin_sizes_exact:
  "bin_sizes (\<lambda>x. x) c = (\<Prod>d<nat (dims c). bsize c ! d)"
proof -
  have "fold (\<lambda>dim b. b * bsize c ! dim) [0..<n] 1 = (\<Prod>d<n. bsize c ! d)" for n
    by (induction n) simp_all
  then show ?thesis by (simp add: bin_sizes_def)
qed

lemma text_line_exact:
  assumes "get_pos fld (nat (dims c)) (bins c) pos = Some v"
  shows "text_line (\<lambda>x. x) c fld cnt pos
     = Some (Line (map (\<lambda>d. low c ! d
                 + (of_int (pos ! d) + 1 / 2) * ((hi c ! d - low c ! d) / of_int (bins c ! d)))
               [0..<nat (dims c)])
          (if relative c
           then Freq (of_int v / ((\<Prod>d<nat (dims c). bsize c ! d) * of_int cnt))
           else Count v))"
  using assms by (simp add: text_line_def midpoint_def bin_sizes_exact)










end
